theory Spec2Isabelle
  imports Main "HOL-Library.Word"
begin

unbundle bit_operations_syntax

section \<open>Bytes\<close>

text \<open>
  A \<open>QByteArray\<close> is a list of bytes; Isabelle's \<open>char\<close> is an 8-bit value, so a byte
  array is a \<open>string\<close>. Where the source tells a null array from an empty one
  (\<open>isNull()\<close>), the array is a \<open>string option\<close> with \<open>None\<close> for null.
\<close>

type_synonym bytes = string

definition CR :: char where
  "CR = char_of (13::nat)"

definition LF :: char where
  "LF = char_of (10::nat)"

definition TAB :: char where
  "TAB = char_of (9::nat)"

definition SPC :: char where
  "SPC = char_of (32::nat)"

section \<open>Transaction (qsrmailtransaction.cpp)\<close>

datatype TransactionError =
    NoError | NoSenderError | NoRecipientsError | ResponseError | ConnectionError
  | TlsRequiredError | ResolverError | TimeoutError | AbortedError | DataError

text \<open>The signals a transaction emits, in the order of emission.\<close>

datatype signal = SigError TransactionError | SigFinished | SigProgress int

record QsrMailTransactionPrivate =
  error :: TransactionError
  errorText :: "string option"
  status :: int
  emitted :: "signal list"

text \<open>The constructor: \<open>error(NoError), status(0)\<close>; nothing emitted yet.\<close>

definition newTransaction :: QsrMailTransactionPrivate where
  "newTransaction = \<lparr>error = NoError, errorText = None, status = 0, emitted = []\<rparr>"

text \<open>\<open>finalize()\<close>: \<open>if (error != NoError) emit error(error); emit finished();\<close>\<close>

definition finalize :: "QsrMailTransactionPrivate \<Rightarrow> QsrMailTransactionPrivate" where
  "finalize t =
     (let t1 = (if error t \<noteq> NoError then t\<lparr>emitted := emitted t @ [SigError (error t)]\<rparr> else t)
      in t1\<lparr>emitted := emitted t1 @ [SigFinished]\<rparr>)"

fun defaultErrorText :: "TransactionError \<Rightarrow> string" where
  "defaultErrorText NoError = ''No error occured''"
| "defaultErrorText NoSenderError = ''No sender/from has been specified''"
| "defaultErrorText NoRecipientsError = ''No recipients have been specified''"
| "defaultErrorText ResponseError = ''Unexpected server response''"
| "defaultErrorText ConnectionError =
     ''The connection timed out or the remote server unexpectedly closed the connection''"
| "defaultErrorText TlsRequiredError = ''TLS required but not available''"
| "defaultErrorText ResolverError = ''Unable to resolve hostname''"
| "defaultErrorText TimeoutError = ''Connection dropped by timeout''"
| "defaultErrorText AbortedError = ''Message aborted.''"
| "defaultErrorText DataError = ''Message cannot be rendered.''"

text \<open>\<open>setError(code, text)\<close>: a null text is replaced by the default text of the code.\<close>

definition setError ::
  "TransactionError \<Rightarrow> string option \<Rightarrow> QsrMailTransactionPrivate \<Rightarrow> QsrMailTransactionPrivate" where
  "setError code text t =
     t\<lparr>error := code,
       errorText := (case text of None \<Rightarrow> Some (defaultErrorText code) | Some s \<Rightarrow> Some s)\<rparr>"

text \<open>\<open>QsrMailTransaction::abort()\<close>: \<open>d->setError(AbortedError); d->finalize();\<close>\<close>

definition abort :: "QsrMailTransactionPrivate \<Rightarrow> QsrMailTransactionPrivate" where
  "abort t = finalize (setError AbortedError None t)"

definition finishedCount :: "QsrMailTransactionPrivate \<Rightarrow> nat" where
  "finishedCount t = length (filter (\<lambda>s. s = SigFinished) (emitted t))"

section \<open>Headers (qsrmailheaders.cpp)\<close>

type_synonym HeaderPair = "bytes \<times> bytes option"
type_synonym HeaderList = "HeaderPair list"

text \<open>
  \<open>setHeader\<close>: nothing on an empty name; every entry of that name is erased; a null value
  stops there, any other value is appended.
\<close>

definition setHeader :: "bytes \<Rightarrow> bytes option \<Rightarrow> HeaderList \<Rightarrow> HeaderList" where
  "setHeader name val hs =
     (if name = [] then hs
      else let hs1 = filter (\<lambda>p. fst p \<noteq> name) hs
           in (case val of None \<Rightarrow> hs1 | Some v \<Rightarrow> hs1 @ [(name, Some v)]))"

definition appendHeader :: "bytes \<Rightarrow> bytes option \<Rightarrow> HeaderList \<Rightarrow> HeaderList" where
  "appendHeader name val hs =
     (if name = [] \<or> val = None then hs else hs @ [(name, val)])"

text \<open>
  \<open>findHeader\<close> returns the iterator of the first entry named \<open>name\<close>, or
  \<open>constEnd()\<close>: here the position, \<open>length hs\<close> standing for \<open>constEnd()\<close>.
\<close>

fun findHeader :: "bytes \<Rightarrow> HeaderList \<Rightarrow> nat" where
  "findHeader name [] = 0"
| "findHeader name (p # ps) = (if fst p = name then 0 else Suc (findHeader name ps))"

text \<open>\<open>hasHeader\<close>: \<open>return findHeader(name) == headers.constEnd();\<close>\<close>

definition hasHeader :: "bytes \<Rightarrow> HeaderList \<Rightarrow> bool" where
  "hasHeader name hs = (findHeader name hs = length hs)"

section \<open>Message (qsrmailmessage.cpp)\<close>

record QsrMailAddress =
  address :: string
  displayName :: string

text \<open>
  A \<open>QDateTime\<close> is a number of seconds; an invalid (unset) one is \<open>None\<close>. A null
  \<open>QString\<close> subject is \<open>None\<close>.
\<close>

record QsrMailMessagePrivate =
  messageId :: "bytes option"
  headers :: HeaderList
  sender :: QsrMailAddress
  fromList :: "QsrMailAddress list"
  toList :: "QsrMailAddress list"
  replyTo :: "QsrMailAddress list"
  cc :: "QsrMailAddress list"
  bcc :: "QsrMailAddress list"
  date :: "nat option"
  subject :: "string option"

text \<open>
  The helpers of \<open>QsrMailRfcTools\<close> and \<open>QsrMailAddress::toByteArray\<close> are taken at
  their call interface, as parameters: \<open>toByteArray\<close> (null for an invalid address),
  \<open>rfc2822Date\<close>, \<open>toEncodedWords\<close>, and the clock \<open>currentDateTime\<close>.
\<close>

record rfcTools =
  toByteArray :: "QsrMailAddress \<Rightarrow> bytes option"
  rfc2822Date :: "nat \<Rightarrow> bytes option"
  toEncodedWords :: "string \<Rightarrow> bytes option"
  currentDateTime :: nat

definition QSRMAIL_VERSION_STR :: string where
  "QSRMAIL_VERSION_STR = ''1.0.0''"

definition appendAddresses :: "rfcTools \<Rightarrow> bytes \<Rightarrow> QsrMailAddress list \<Rightarrow> HeaderList \<Rightarrow> HeaderList" where
  "appendAddresses tools name as hs = foldl (\<lambda>r a. appendHeader name (toByteArray tools a) r) hs as"

definition cookHeaders :: "rfcTools \<Rightarrow> QsrMailMessagePrivate \<Rightarrow> HeaderList" where
  "cookHeaders tools m =
     (let r0 = headers m;
          r1 = appendAddresses tools ''From'' (fromList m) r0;
          r2 = appendAddresses tools ''To'' (toList m) r1;
          r3 = appendAddresses tools ''Reply-To'' (replyTo m) r2;
          r4 = appendAddresses tools ''Cc'' (cc m) r3;
          r5 = appendAddresses tools ''Bcc'' (bcc m) r4;
          r6 = (case date m of
                  Some d \<Rightarrow> setHeader ''Date'' (rfc2822Date tools d) r5
                | None \<Rightarrow>
                    if \<not> hasHeader ''Date'' r5
                    then setHeader ''Date'' (rfc2822Date tools (currentDateTime tools)) r5
                    else r5);
          r7 = (case subject m of
                  Some s \<Rightarrow> setHeader ''Subject'' (toEncodedWords tools s) r6
                | None \<Rightarrow> r6);
          r8 = setHeader ''Message-ID'' (messageId m) r7;
          r9 = (if \<not> hasHeader ''User-Agent'' r8
                then setHeader ''User-Agent'' (Some (''QsrMail '' @ QSRMAIL_VERSION_STR)) r8
                else r8)
      in r9)"

text \<open>The values of the entries named \<open>name\<close>, in list order.\<close>

definition headerValues :: "bytes \<Rightarrow> HeaderList \<Rightarrow> bytes option list" where
  "headerValues name hs = map snd (filter (\<lambda>p. fst p = name) hs)"

section \<open>Transport (qsrmailtransport.cpp)\<close>

datatype State =
    IdleState | ResolvingState | ResolvedState | ConnectingState | ConnectedState
  | BannerState | SessionInitState | TlsSetupState | EncryptedState
  | EncryptedSessionInitState | SessionSetupState | AuthState | ReadyToSendState
  | MailFromState | RcptToState | DataState | EndOfMessageState | DataSentState
  | ClosingState | DisconnectedState | FinishedState

text \<open>
  What the transport asks of its collaborators (timer, event loop, resolver, socket) and
  the signal it emits, in the order of the calls.
\<close>

datatype effect =
    TimerStart int
  | TimerRestart
  | InvokeProcessStates
  | EmitFinished
  | DnsLookup string
  | ConnectToHost string nat

record QsrMailTransportPrivate =
  state :: State
  interrupted :: bool
  aborted :: bool
  reachedRTS :: bool
  authenticated :: bool
  crlfState :: int
  totalMessages :: int
  processedMessages :: int
  queue :: "QsrMailTransactionPrivate list"
  timeout :: int
  timerActive :: bool
  serverHostname :: "string option"
  serverAddress :: "string option"
  serverPort :: nat
  effects :: "effect list"

text \<open>
  The constructor's initialiser list: \<open>state(IdleState)\<close>, \<ellipsis>, \<open>timeout(6000)\<close>,
  \<open>serverPort(25)\<close>; the queue is empty and the timer is not running.
\<close>

definition newTransport :: QsrMailTransportPrivate where
  "newTransport =
     \<lparr>state = IdleState, interrupted = False, aborted = False, reachedRTS = False,
      authenticated = False, crlfState = 0, totalMessages = 0, processedMessages = 0,
      queue = [], timeout = 6000, timerActive = False, serverHostname = None,
      serverAddress = None, serverPort = 25, effects = []\<rparr>"

definition setTimeout :: "int \<Rightarrow> QsrMailTransportPrivate \<Rightarrow> QsrMailTransportPrivate" where
  "setTimeout v d = d\<lparr>timeout := v\<rparr>"

text \<open>\<open>queueMessage\<close>: a new transaction is put at the end of the queue.\<close>

definition queueMessage :: "QsrMailTransportPrivate \<Rightarrow> QsrMailTransportPrivate" where
  "queueMessage d = d\<lparr>queue := queue d @ [newTransaction]\<rparr>"

text \<open>
  \<open>sendMessagesImpl(initState)\<close>: on an empty queue it emits \<open>finished()\<close> and returns;
  otherwise it sets the state, resets the counters and flags, starts the timer with
  \<open>timeout\<close> and queues a call of \<open>_q_processStates\<close>.
\<close>

definition sendMessagesImpl :: "State \<Rightarrow> QsrMailTransportPrivate \<Rightarrow> QsrMailTransportPrivate" where
  "sendMessagesImpl initState d =
     (if queue d = [] then d\<lparr>effects := effects d @ [EmitFinished]\<rparr>
      else d\<lparr>state := initState,
             totalMessages := int (length (queue d)),
             processedMessages := 0,
             interrupted := False, aborted := False, reachedRTS := False,
             authenticated := False, crlfState := 0,
             timerActive := True,
             effects := effects d @ [TimerStart (timeout d), InvokeProcessStates]\<rparr>)"

text \<open>\<open>sendMessages(const QString &serverHostname, quint16 port, ...)\<close>\<close>

definition sendMessages_hostname ::
  "string \<Rightarrow> nat \<Rightarrow> QsrMailTransportPrivate \<Rightarrow> QsrMailTransportPrivate" where
  "sendMessages_hostname host port d =
     sendMessagesImpl ResolvingState
       (d\<lparr>serverHostname := Some host, serverAddress := None, serverPort := port\<rparr>)"

text \<open>\<open>sendMessages(const QHostAddress &serverAddress, quint16 port)\<close>\<close>

definition sendMessages_address ::
  "string \<Rightarrow> nat \<Rightarrow> QsrMailTransportPrivate \<Rightarrow> QsrMailTransportPrivate" where
  "sendMessages_address addr port d =
     sendMessagesImpl ConnectedState
       (d\<lparr>serverHostname := None, serverAddress := Some addr, serverPort := port\<rparr>)"

text \<open>
  \<open>_q_processStates\<close>, the branches of the three states a delivery can start in: the
  timer is restarted when active; \<open>ResolvingState\<close> starts the lookup and moves to
  \<open>ResolvedState\<close>; \<open>ConnectingState\<close> calls \<open>socket->connectToHost\<close> and stays;
  \<open>ConnectedState\<close> clears \<open>authenticated\<close> and moves to \<open>BannerState\<close>. Each of them
  returns at once. The branches of the other states are not part of this model
  (\<open>None\<close>).
\<close>

definition q_processStates :: "QsrMailTransportPrivate \<Rightarrow> QsrMailTransportPrivate option" where
  "q_processStates d0 =
     (let d = (if timerActive d0 then d0\<lparr>effects := effects d0 @ [TimerRestart]\<rparr> else d0)
      in if state d = ResolvingState then
           Some (d\<lparr>state := ResolvedState,
                   effects := effects d @ [DnsLookup (case serverHostname d of None \<Rightarrow> [] | Some h \<Rightarrow> h)]\<rparr>)
         else if state d = ConnectingState then
           Some (d\<lparr>effects := effects d @
                   [ConnectToHost (case serverAddress d of None \<Rightarrow> [] | Some a \<Rightarrow> a) (serverPort d)]\<rparr>)
         else if state d = ConnectedState then
           Some (d\<lparr>authenticated := False, state := BannerState\<rparr>)
         else None)"

definition connectIssued :: "QsrMailTransportPrivate \<Rightarrow> bool" where
  "connectIssued d = (\<exists>e \<in> set (effects d). case e of ConnectToHost a p \<Rightarrow> True | _ \<Rightarrow> False)"

subsection \<open>Envelope: \<open>setupTransaction\<close>\<close>

text \<open>
  \<open>rcpts\<close> is a \<open>QSet<QByteArray>\<close>: a hash set, here the set of its elements. A null
  and an empty \<open>QByteArray\<close> are equal as keys, so the key of an address is the byte
  string, empty for an invalid address.
\<close>

definition encoded :: "rfcTools \<Rightarrow> QsrMailAddress \<Rightarrow> bytes" where
  "encoded tools a = (case toByteArray tools a of None \<Rightarrow> [] | Some b \<Rightarrow> b)"

text \<open>
  \<open>recipients.append(msg.to()); recipients.append(msg.cc()); recipients.append(msg.bcc());\<close>
\<close>

definition recipients :: "QsrMailMessagePrivate \<Rightarrow> QsrMailAddress list" where
  "recipients m = toList m @ cc m @ bcc m"

text \<open>
  \<open>rcpts.clear(); for (i...) rcpts.insert(recipients.at(i).toByteArray());\<close>
\<close>

definition rcpts :: "rfcTools \<Rightarrow> QsrMailMessagePrivate \<Rightarrow> bytes set" where
  "rcpts tools m = foldl (\<lambda>s a. insert (encoded tools a) s) {} (recipients m)"

text \<open>
  The sender: \<open>msg.sender()\<close> when valid, else the first \<open>from\<close> address, else empty.
  \<open>isValid()\<close> of an address is \<open>toByteArray\<close> being non-null.
\<close>

definition envelopeFrom :: "rfcTools \<Rightarrow> QsrMailMessagePrivate \<Rightarrow> bytes" where
  "envelopeFrom tools m =
     (if toByteArray tools (sender m) \<noteq> None then encoded tools (sender m)
      else (case fromList m of [] \<Rightarrow> [] | a # _ \<Rightarrow> encoded tools a))"

text \<open>The preflight check of \<open>setupTransaction\<close>: the error it finalises the transaction with, if any.\<close>

definition setupTransaction :: "rfcTools \<Rightarrow> QsrMailMessagePrivate \<Rightarrow> TransactionError option" where
  "setupTransaction tools m =
     (if envelopeFrom tools m = [] then Some NoSenderError
      else if rcpts tools m = {} then Some NoRecipientsError
      else None)"

text \<open>
  The \<open>RcptToState\<close> branch sends one \<open>RCPT TO\<close> for each element the iterator
  \<open>rcpt\<close> passes between \<open>constBegin()\<close> and \<open>constEnd()\<close>. A \<open>QSet\<close> iterates in the
  order of its hash table, which the insertion order does not determine: the sequence
  sent is some enumeration of the set, each element once.
\<close>

definition rcptSequence :: "rfcTools \<Rightarrow> QsrMailMessagePrivate \<Rightarrow> bytes list \<Rightarrow> bool" where
  "rcptSequence tools m xs = (distinct xs \<and> set xs = rcpts tools m)"

text \<open>
  The order the specification asks for: one pass over \<open>to\<close>, then \<open>cc\<close>, then \<open>bcc\<close>,
  keeping the first occurrence of each encoded form.
\<close>

fun dedupFirst :: "bytes list \<Rightarrow> bytes list \<Rightarrow> bytes list" where
  "dedupFirst seen [] = []"
| "dedupFirst seen (x # xs) =
     (if x \<in> set seen then dedupFirst seen xs else x # dedupFirst (x # seen) xs)"

definition insertionOrder :: "rfcTools \<Rightarrow> QsrMailMessagePrivate \<Rightarrow> bytes list" where
  "insertionOrder tools m = dedupFirst [] (map (encoded tools) (recipients m))"

text \<open>An encoder that is the identity on the address, and a message with \<open>to = [a@x, b@y]\<close>, \<open>cc = [a@x]\<close>.\<close>

definition plainTools :: rfcTools where
  "plainTools =
     \<lparr>toByteArray = (\<lambda>a. if address a = [] then None else Some (address a)),
      rfc2822Date = (\<lambda>n. Some ''Thu, 01 Jan 1970 00:00:00 +0000''),
      toEncodedWords = (\<lambda>s. Some s),
      currentDateTime = 0\<rparr>"

definition twoRecipients :: QsrMailMessagePrivate where
  "twoRecipients =
     \<lparr>messageId = Some ''<1@localhost>'', headers = [],
      sender = \<lparr>address = ''s@x'', displayName = []\<rparr>,
      fromList = [],
      toList = [\<lparr>address = ''a@x'', displayName = []\<rparr>, \<lparr>address = ''b@y'', displayName = []\<rparr>],
      replyTo = [],
      cc = [\<lparr>address = ''a@x'', displayName = []\<rparr>],
      bcc = [],
      date = None, subject = None\<rparr>"

section \<open>Byte-stream encoders\<close>

subsection \<open>The source device and the state of an encoder\<close>

text \<open>
  The source is a \<open>QIODevice\<close> of Qt. Its model is the list of the bytes that can be read
  now, in order: \<open>bytesAvailable()\<close> is its length, \<open>getChar\<close> takes its head and fails on
  the empty list, \<open>ungetChar(c)\<close> puts \<open>c\<close> in front, \<open>peek(buf, n)\<close> copies its first
  \<open>n\<close> bytes (fewer when fewer are there) and \<open>atEnd()\<close> of a random-access device is the
  list being empty.
\<close>

record QIODevice =
  avail :: bytes
  isSequential :: bool

record QsrMailAbstractEncoderPrivate =
  gotReadChannelFinished :: bool

text \<open>Both concrete encoders declare \<open>int lineWidth; int lineChars;\<close>.\<close>

record lineEncoder = QsrMailAbstractEncoderPrivate +
  lineWidth :: int
  lineChars :: int

record QsrMailBase64EncoderPrivate = lineEncoder +
  qBuffer :: "32 word"
  qSize :: int

definition deviceAtEnd :: "'a QsrMailAbstractEncoderPrivate_scheme \<Rightarrow> QIODevice \<Rightarrow> bool" where
  "deviceAtEnd e d =
     (if isSequential d then avail d = [] \<and> gotReadChannelFinished e else avail d = [])"

datatype encoderError = BufferOverrun | LoopForever

text \<open>What one call of \<open>readData\<close> does: the bytes written to \<open>data\<close>, the value returned,
  whether \<open>readChannelFinished()\<close> was emitted, and the encoder and the device after it.\<close>

record 'e readResult =
  written :: bytes
  returned :: int
  finishedEmitted :: bool
  encoder :: 'e
  source :: QIODevice

subsection \<open>Base64 (qsrmailbase64encoder.cpp, qsrmailbase64encoder_p.h)\<close>

definition base64dict :: string where
  "base64dict = ''ABCDEFGHIJKLMNOPQRSTUVWXYZabcdefghijklmnopqrstuvwxyz0123456789+/''"

text \<open>
  \<open>put\<close>: the character is written; when \<open>lineWidth > 0\<close>, \<open>lineChars\<close> is incremented
  and, on reaching \<open>lineWidth\<close>, CR LF is written and \<open>lineChars\<close> reset. The bytes
  written stand for the advance of \<open>*p\<close>; their number is the value returned.
\<close>

definition put :: "'a lineEncoder_scheme \<Rightarrow> char \<Rightarrow> bytes \<times> 'a lineEncoder_scheme" where
  "put e c =
     (if lineWidth e > 0 then
        (if lineChars e + 1 \<ge> lineWidth e then ([c, CR, LF], e\<lparr>lineChars := 0\<rparr>)
         else ([c], e\<lparr>lineChars := lineChars e + 1\<rparr>))
      else ([c], e))"

definition putQ :: "QsrMailBase64EncoderPrivate \<Rightarrow> bytes \<times> QsrMailBase64EncoderPrivate" where
  "putQ e =
     (let pad = 3 - qSize e;
          (b1, e1) = put e (base64dict ! unat (drop_bit 18 (qBuffer e AND 0xfc0000)));
          (b2, e2) = put e1 (base64dict ! unat (drop_bit 12 (qBuffer e AND 0x3f000)));
          (b3, e3) = put e2 (if pad = 2 then CHR ''=''
                             else base64dict ! unat (drop_bit 6 (qBuffer e AND 0xfc0)));
          (b4, e4) = put e3 (if pad \<ge> 1 then CHR ''=''
                             else base64dict ! unat (qBuffer e AND 0x3f))
      in (b1 @ b2 @ b3 @ b4, e4\<lparr>qBuffer := 0, qSize := 0\<rparr>))"

text \<open>The \<open>switch (qSize)\<close> of the fill loop: the byte goes to bits 16-23, 8-15 or 0-7.\<close>

definition accumulate :: "32 word \<Rightarrow> int \<Rightarrow> char \<Rightarrow> 32 word" where
  "accumulate qb qs c =
     (if qs = 0 then qb OR (push_bit 16 (of_char c) AND 0xff0000)
      else if qs = 1 then qb OR (push_bit 8 (of_char c) AND 0xff00)
      else if qs = 2 then qb OR (of_char c AND 0xff)
      else qb)"

text \<open>\<open>while (qSize < 3) { if (!device->getChar(&c)) break; ...; qSize++; }\<close>\<close>

fun fillQuantum ::
  "QsrMailBase64EncoderPrivate \<Rightarrow> bytes \<Rightarrow> QsrMailBase64EncoderPrivate \<times> bytes" where
  "fillQuantum e [] = (e, [])"
| "fillQuantum e (c # cs) =
     (if qSize e < 3
      then fillQuantum (e\<lparr>qBuffer := accumulate (qBuffer e) (qSize e) c, qSize := qSize e + 1\<rparr>) cs
      else (e, c # cs))"

lemma fillQuantum_length: "fillQuantum e cs = (e', cs') \<Longrightarrow> length cs' \<le> length cs"
  by (induction e cs rule: fillQuantum.induct) (auto split: if_splits)

lemma fillQuantum_consumes:
  "fillQuantum e cs = (e', cs') \<Longrightarrow> qSize e < 3 \<Longrightarrow> cs \<noteq> [] \<Longrightarrow> length cs' < length cs"
proof (cases cs)
  case Nil
  then show "fillQuantum e cs = (e', cs') \<Longrightarrow> qSize e < 3 \<Longrightarrow> cs \<noteq> [] \<Longrightarrow> ?thesis" by simp
next
  case (Cons c cs0)
  assume a: "fillQuantum e cs = (e', cs')" "qSize e < 3"
  from a Cons have
    "fillQuantum (e\<lparr>qBuffer := accumulate (qBuffer e) (qSize e) c, qSize := qSize e + 1\<rparr>) cs0 = (e', cs')"
    by simp
  from fillQuantum_length [OF this] Cons show ?thesis by simp
qed

text \<open>
  The outer loop of \<open>readDataImpl\<close>:
  \<open>while (device->bytesAvailable() > 0 && remain > 6) { fill; if (qSize == 3) remain -= putQ(&data); }\<close>.
  With \<open>qSize > 3\<close> an iteration reads nothing and puts nothing, so the loop of the source
  would not end: that is the value \<open>LoopForever\<close>.
\<close>

function readLoop ::
  "QsrMailBase64EncoderPrivate \<Rightarrow> QIODevice \<Rightarrow> int \<Rightarrow> bytes
   \<Rightarrow> encoderError + (QsrMailBase64EncoderPrivate \<times> QIODevice \<times> int \<times> bytes)" where
  "readLoop e d remain out =
     (if avail d \<noteq> [] \<and> remain > 6 then
        (if qSize e > 3 then Inl LoopForever
         else (case fillQuantum e (avail d) of (e1, rest) \<Rightarrow>
                 if qSize e1 = 3
                 then (case putQ e1 of (bs, e2) \<Rightarrow>
                         readLoop e2 (d\<lparr>avail := rest\<rparr>) (remain - int (length bs)) (out @ bs))
                 else readLoop e1 (d\<lparr>avail := rest\<rparr>) remain out))
      else Inr (e, d, remain, out))"
  by pat_completeness auto

lemma putQ_qSize: "putQ e = (bs, e') \<Longrightarrow> qSize e' = 0"
  by (auto simp: putQ_def Let_def split: prod.splits)

lemma fillQuantum_qSize3: "fillQuantum e cs = (e', cs') \<Longrightarrow> qSize e = 3 \<Longrightarrow> cs' = cs"
  by (cases cs) auto

lemma readLoop_step_put:
  assumes "(e1, rest) = fillQuantum e av" and "av \<noteq> []" and "\<not> 3 < qSize e"
  shows "(qSize e = 3 \<and> rest = av) \<or> (qSize e \<noteq> 3 \<and> length rest < length av)"
proof (cases "qSize e = 3")
  case True
  with assms(1) fillQuantum_qSize3 [of e av e1 rest] show ?thesis by simp
next
  case False
  with assms(3) have "qSize e < 3" by simp
  with assms(1,2) fillQuantum_consumes [of e av e1 rest] False show ?thesis by simp
qed

lemma readLoop_step_short:
  assumes "(e1, rest) = fillQuantum e av" and "av \<noteq> []" and "\<not> 3 < qSize e" and "qSize e1 \<noteq> 3"
  shows "length rest < length av"
proof -
  have "qSize e \<noteq> 3"
  proof
    assume "qSize e = 3"
    with assms(1,2,4) show False by (cases av) auto
  qed
  with readLoop_step_put [OF assms(1-3)] show ?thesis by simp
qed

termination readLoop
  apply (relation "measure (\<lambda>(e, d, remain, out). 2 * length (avail d) + (if qSize e = 3 then 1 else 0))")
    apply simp
   apply simp
  subgoal for e d remain x y xa ya
    using readLoop_step_put [of x y e "avail d"] putQ_qSize [of x xa ya] by auto
  subgoal for e d remain out x y
    using readLoop_step_short [of x y e "avail d"] by simp
  done

text \<open>
  \<open>readDataImpl(data, maxlen)\<close>. Writing more than \<open>maxlen\<close> bytes to \<open>data\<close> leaves the
  buffer the caller gave: that is the value \<open>BufferOverrun\<close>.
\<close>

definition readDataImpl ::
  "QsrMailBase64EncoderPrivate \<Rightarrow> QIODevice \<Rightarrow> int
   \<Rightarrow> encoderError + QsrMailBase64EncoderPrivate readResult" where
  "readDataImpl e d maxlen =
     (if qSize e = 0 \<and> deviceAtEnd e d
      then Inr \<lparr>written = [], returned = 0, finishedEmitted = False, encoder = e, source = d\<rparr>
      else (case readLoop e d maxlen [] of
              Inl err \<Rightarrow> Inl err
            | Inr (e1, d1, remain1, out1) \<Rightarrow>
                (case (if deviceAtEnd e1 d1
                       then (if qSize e1 > 0
                             then (case putQ e1 of (bs, e2) \<Rightarrow>
                                     (e2, remain1 - int (length bs), out1 @ bs, True))
                             else (e1, remain1, out1, True))
                       else (e1, remain1, out1, False)) of
                   (e3, remain3, out3, fin) \<Rightarrow>
                     if remain3 < 0 \<and> out3 \<noteq> [] then Inl BufferOverrun
                     else Inr \<lparr>written = out3, returned = maxlen - remain3,
                               finishedEmitted = fin, encoder = e3, source = d1\<rparr>)))"

text \<open>\<open>open()\<close> resets \<open>lineChars\<close>, \<open>qBuffer\<close> and \<open>qSize\<close>; the constructor sets \<open>lineWidth(76)\<close>.\<close>

definition openBase64 :: "int \<Rightarrow> bool \<Rightarrow> QsrMailBase64EncoderPrivate" where
  "openBase64 lw got =
     \<lparr>gotReadChannelFinished = got, lineWidth = lw, lineChars = 0, qBuffer = 0, qSize = 0\<rparr>"

text \<open>
  A reader calls \<open>readData\<close> again and again, with the buffer sizes \<open>ms\<close>: the output is
  the concatenation of what the calls wrote.
\<close>

fun readAll ::
  "QsrMailBase64EncoderPrivate \<Rightarrow> QIODevice \<Rightarrow> int list
   \<Rightarrow> encoderError + (bytes \<times> QsrMailBase64EncoderPrivate \<times> QIODevice)" where
  "readAll e d [] = Inr ([], e, d)"
| "readAll e d (m # ms) =
     (case readDataImpl e d m of
        Inl err \<Rightarrow> Inl err
      | Inr r \<Rightarrow>
          (case readAll (encoder r) (source r) ms of
             Inl err \<Rightarrow> Inl err
           | Inr (out, e', d') \<Rightarrow> Inr (written r @ out, e', d')))"

subsection \<open>Quoted-Printable (qsrmailqpencoder.cpp)\<close>

definition qpdict :: string where
  "qpdict = ''0123456789ABCDEF''"

text \<open>
  \<open>isPrintable\<close>: \<open>(c >= 33 && c <= 60) || (c >= 62 && c <= 126) || c == 9 || c == 32\<close>.
  A byte above 127 fails both range tests whether \<open>char\<close> is signed or not.
\<close>

definition printableChar :: "char \<Rightarrow> bool" where
  "printableChar c =
     (let n = (of_char c :: nat)
      in (33 \<le> n \<and> n \<le> 60) \<or> (62 \<le> n \<and> n \<le> 126) \<or> n = 9 \<or> n = 32)"

text \<open>\<open>'='\<close>, \<open>qpdict[(quint8(c) >> 4) & 0x0f]\<close>, \<open>qpdict[quint8(c) & 0x0f]\<close>\<close>

definition hexEncoded :: "char \<Rightarrow> bytes" where
  "hexEncoded c =
     [CHR ''='', qpdict ! ((of_char c :: nat) div 16 mod 16), qpdict ! ((of_char c :: nat) mod 16)]"

text \<open>
  One pass of the body of the \<open>while\<close> loop: \<open>Stop\<close> when it leaves the loop by
  \<open>break\<close>, \<open>Next\<close> when it reaches the end of the body or a \<open>continue\<close>. The values
  are the encoder, the device's bytes, \<open>remaining\<close> and the bytes written so far.
\<close>

datatype qpStep =
    Stop lineEncoder bytes int bytes
  | Next lineEncoder bytes int bytes

text \<open>
  The part of the body after the line-break rules, for the current character \<open>c\<close> (the
  device then holds \<open>dv\<close>): the dot rule, the soft line break and the character itself.
  \<open>ENSURE_SPACE(n)\<close> is \<open>if (remaining < n) { device->ungetChar(c); break; }\<close>.
\<close>

definition qpEmit ::
  "lineEncoder \<Rightarrow> char \<Rightarrow> bytes \<Rightarrow> bool \<Rightarrow> int \<Rightarrow> bytes \<Rightarrow> qpStep" where
  "qpEmit e c dv forceEncoding0 remaining out =
     (let forceEncoding = (forceEncoding0 \<or> (lineChars e = 0 \<and> c = CHR ''.''));
          isPrintable = (\<not> forceEncoding \<and> printableChar c);
          softBreak = (lineChars e + (if isPrintable then 2 else 4) \<ge> lineWidth e)
      in if softBreak \<and> remaining < 3 then Stop e (c # dv) remaining out
         else let e1 = (if softBreak then e\<lparr>lineChars := 0\<rparr> else e);
                  remaining1 = (if softBreak then remaining - 3 else remaining);
                  out1 = (if softBreak then out @ [CHR ''='', CR, LF] else out)
              in if isPrintable
                 then Next (e1\<lparr>lineChars := lineChars e1 + 1\<rparr>) dv (remaining1 - 1) (out1 @ [c])
                 else if remaining1 < 3 then Stop e1 (c # dv) remaining1 out1
                 else Next (e1\<lparr>lineChars := lineChars e1 + 3\<rparr>) dv (remaining1 - 3)
                        (out1 @ hexEncoded c))"

text \<open>
  The body of the loop from its start, on the bytes \<open>av\<close> of the device:
  \<open>getChar\<close>; the look-ahead of rule 3 for TAB and SPACE (\<open>peek\<close> of two bytes, else
  \<open>ungetChar\<close> and \<open>break\<close>); the line breaks of rule 4, where a CR not followed by LF
  leaves the following character in \<open>c\<close> and back on the device; the LF of text mode.
\<close>

definition qpIter :: "bool \<Rightarrow> lineEncoder \<Rightarrow> bytes \<Rightarrow> int \<Rightarrow> bytes \<Rightarrow> qpStep" where
  "qpIter isTextModeEnabled e av remaining out =
     (case av of
        [] \<Rightarrow> Stop e av remaining out
      | c # rest \<Rightarrow>
          if (c = TAB \<or> c = SPC) \<and> length (take 2 rest) \<noteq> 2 then Stop e (c # rest) remaining out
          else
            let forceEncoding = ((c = TAB \<or> c = SPC) \<and> take 2 rest = [CR, LF])
            in if c = CR then
                 (case rest of
                    [] \<Rightarrow> Stop e [CR] remaining out
                  | c2 # rest2 \<Rightarrow>
                      if c2 = LF then
                        (if remaining < 2 then Stop e (c2 # rest2) remaining out
                         else Next (e\<lparr>lineChars := 0\<rparr>) rest2 (remaining - 2) (out @ [CR, LF]))
                      else qpEmit e c2 (c2 # rest2) forceEncoding remaining out)
               else if isTextModeEnabled \<and> c = LF then
                 (if remaining < 2 then Stop e (c # rest) remaining out
                  else Next (e\<lparr>lineChars := 0\<rparr>) rest (remaining - 2) (out @ [CR, LF]))
               else qpEmit e c rest forceEncoding remaining out)"

lemma qpEmit_Next_device: "qpEmit e c dv f remaining out = Next e' av' r' out' \<Longrightarrow> av' = dv"
  by (auto simp: qpEmit_def Let_def split: if_splits)

lemma qpIter_Next_shorter:
  "qpIter tm e av remaining out = Next e' av' r' out' \<Longrightarrow> length av' < length av"
  by (auto simp: qpIter_def Let_def split: list.splits if_splits dest: qpEmit_Next_device)

text \<open>\<open>while (device->bytesAvailable() && remaining > 0) { ... }\<close>\<close>

function qpLoop ::
  "bool \<Rightarrow> lineEncoder \<Rightarrow> bytes \<Rightarrow> int \<Rightarrow> bytes \<Rightarrow> lineEncoder \<times> bytes \<times> int \<times> bytes" where
  "qpLoop tm e av remaining out =
     (if av \<noteq> [] \<and> remaining > 0 then
        (case qpIter tm e av remaining out of
           Stop e' av' r' out' \<Rightarrow> (e', av', r', out')
         | Next e' av' r' out' \<Rightarrow> qpLoop tm e' av' r' out')
      else (e, av, remaining, out))"
  by pat_completeness auto

termination
  by (relation "measure (\<lambda>(tm, e, av, remaining, out). length av)")
     (auto dest: qpIter_Next_shorter)

text \<open>
  \<open>readDataImpl(data, maxlen)\<close> of the Quoted-Printable encoder; \<open>isTextModeEnabled\<close> is
  the text mode of the encoder device.
\<close>

definition qpReadDataImpl ::
  "bool \<Rightarrow> lineEncoder \<Rightarrow> QIODevice \<Rightarrow> int \<Rightarrow> encoderError + lineEncoder readResult" where
  "qpReadDataImpl isTextModeEnabled e d maxlen =
     (if deviceAtEnd e d
      then Inr \<lparr>written = [], returned = 0, finishedEmitted = False, encoder = e, source = d\<rparr>
      else (case qpLoop isTextModeEnabled e (avail d) maxlen [] of
              (e1, av1, remaining1, out1) \<Rightarrow>
                if remaining1 < 0 \<and> out1 \<noteq> [] then Inl BufferOverrun
                else Inr \<lparr>written = out1, returned = maxlen - remaining1,
                          finishedEmitted = deviceAtEnd e1 (d\<lparr>avail := av1\<rparr>),
                          encoder = e1, source = d\<lparr>avail := av1\<rparr>\<rparr>))"

definition openQp :: "int \<Rightarrow> bool \<Rightarrow> lineEncoder" where
  "openQp lw got = \<lparr>gotReadChannelFinished = got, lineWidth = lw, lineChars = 0\<rparr>"

text \<open>
  Repeated calls of \<open>readData\<close> with buffer sizes \<open>ms\<close>: the concatenated output, the values
  returned by the calls, whether any call emitted \<open>readChannelFinished()\<close>, and the final
  encoder and device.
\<close>

fun qpReadAll ::
  "bool \<Rightarrow> lineEncoder \<Rightarrow> QIODevice \<Rightarrow> int list
   \<Rightarrow> encoderError + (bytes \<times> int list \<times> bool \<times> lineEncoder \<times> QIODevice)" where
  "qpReadAll tm e d [] = Inr ([], [], False, e, d)"
| "qpReadAll tm e d (m # ms) =
     (case qpReadDataImpl tm e d m of
        Inl err \<Rightarrow> Inl err
      | Inr r \<Rightarrow>
          (case qpReadAll tm (encoder r) (source r) ms of
             Inl err \<Rightarrow> Inl err
           | Inr (out, rets, fin, e', d') \<Rightarrow>
               Inr (written r @ out, returned r # rets, finishedEmitted r \<or> fin, e', d')))"

text \<open>
  The device holds a TAB or SPACE with fewer than two bytes behind it: \<open>peek\<close> cannot
  return two bytes.
\<close>

definition stalled :: "bytes \<Rightarrow> bool" where
  "stalled av = (case av of [] \<Rightarrow> False | c # rest \<Rightarrow> (c = TAB \<or> c = SPC) \<and> length rest < 2)"

text \<open>The last byte the device holds is a TAB or SPACE.\<close>

definition endsBlank :: "bytes \<Rightarrow> bool" where
  "endsBlank av = (av \<noteq> [] \<and> (last av = TAB \<or> last av = SPC))"

section \<open>Reference notions for the encoders' output\<close>

subsection \<open>A Base64 decoder, CRLF count and line lengths\<close>

text \<open>
  The encoders have no decoder in the repository; the round trip is stated against the
  Base64 decoder of RFC 4648 that skips CR and LF: four characters give 24 bits, a padding
  character \<open>=\<close> in third or fourth place cuts the group to one or two bytes.
\<close>

text \<open>The value of a character is its position in the alphabet; any other character counts 0.\<close>

fun indexOf :: "char \<Rightarrow> string \<Rightarrow> nat" where
  "indexOf c [] = 0"
| "indexOf c (x # xs) = (if x = c then 0 else Suc (indexOf c xs))"

definition b64val :: "char \<Rightarrow> nat" where
  "b64val c = (if c \<in> set base64dict then indexOf c base64dict else 0)"

fun decodeQuads :: "string \<Rightarrow> bytes" where
  "decodeQuads (c1 # c2 # c3 # c4 # cs) =
     (let v = b64val c1 * 262144 + b64val c2 * 4096 + b64val c3 * 64 + b64val c4
      in (if c3 = CHR ''='' then [char_of (v div 65536)]
          else if c4 = CHR ''='' then [char_of (v div 65536), char_of (v div 256)]
          else [char_of (v div 65536), char_of (v div 256), char_of v]))
     @ decodeQuads cs"
| "decodeQuads _ = []"

definition base64_decode :: "string \<Rightarrow> bytes" where
  "base64_decode s = decodeQuads (filter (\<lambda>c. c \<noteq> CR \<and> c \<noteq> LF) s)"

text \<open>The number of CR LF pairs inserted (the alphabet holds no CR), and the lengths of the
  lines between them, the last line included.\<close>

definition crlfCount :: "string \<Rightarrow> nat" where
  "crlfCount s = length (filter (\<lambda>c. c = CR) s)"

fun lineLengths :: "nat \<Rightarrow> string \<Rightarrow> nat list" where
  "lineLengths k [] = [k]"
| "lineLengths k [c] = [Suc k]"
| "lineLengths k (c # c' # cs) =
     (if c = CR \<and> c' = LF then k # lineLengths 0 cs else lineLengths (Suc k) (c' # cs))"

subsection \<open>The encoding as a function of the input\<close>

text \<open>
  \<open>wrapOut lw lc cs\<close> is what a sequence of \<open>put\<close> calls writes for the characters
  \<open>cs\<close> with \<open>lineWidth = lw\<close>, starting at \<open>lineChars = lc\<close>, and \<open>wrapLc\<close> the
  value of \<open>lineChars\<close> after them. \<open>quantumChars n W\<close> are the four characters of a
  quantum of \<open>n\<close> bytes whose 24 bits are \<open>W\<close>; \<open>encodePlain\<close> is the Base64 text of a
  byte sequence without line breaks.
\<close>

fun wrapOut :: "int \<Rightarrow> int \<Rightarrow> string \<Rightarrow> string" where
  "wrapOut lw lc [] = []"
| "wrapOut lw lc (c # cs) =
     (if lw > 0 then (if lc + 1 \<ge> lw then c # CR # LF # wrapOut lw 0 cs
                      else c # wrapOut lw (lc + 1) cs)
      else c # wrapOut lw lc cs)"

fun wrapLc :: "int \<Rightarrow> int \<Rightarrow> string \<Rightarrow> int" where
  "wrapLc lw lc [] = lc"
| "wrapLc lw lc (c # cs) =
     (if lw > 0 then (if lc + 1 \<ge> lw then wrapLc lw 0 cs else wrapLc lw (lc + 1) cs)
      else wrapLc lw lc cs)"

definition quantumChars :: "nat \<Rightarrow> nat \<Rightarrow> string" where
  "quantumChars n W =
     [base64dict ! (W div 262144 mod 64),
      base64dict ! (W div 4096 mod 64),
      if n = 1 then CHR ''='' else base64dict ! (W div 64 mod 64),
      if n \<le> 2 then CHR ''='' else base64dict ! (W mod 64)]"

fun pendValue :: "bytes \<Rightarrow> nat" where
  "pendValue [] = 0"
| "pendValue [a] = of_char a * 65536"
| "pendValue [a, b] = of_char a * 65536 + of_char b * 256"
| "pendValue (a # b # c # cs) = of_char a * 65536 + of_char b * 256 + of_char c"

fun encodePlain :: "bytes \<Rightarrow> string" where
  "encodePlain [] = []"
| "encodePlain [a] = quantumChars 1 (pendValue [a])"
| "encodePlain [a, b] = quantumChars 2 (pendValue [a, b])"
| "encodePlain (a # b # c # cs) = quantumChars 3 (pendValue [a, b, c]) @ encodePlain cs"

text \<open>\<open>puts\<close> runs \<open>put\<close> over a list of characters. \<open>quantumInv e pend\<close>: the
  accumulator of \<open>e\<close> holds exactly the bytes \<open>pend\<close>, read and not yet encoded.\<close>

fun puts :: "'a lineEncoder_scheme \<Rightarrow> string \<Rightarrow> bytes \<times> 'a lineEncoder_scheme" where
  "puts e [] = ([], e)"
| "puts e (c # cs) = (case put e c of (b, e1) \<Rightarrow> (case puts e1 cs of (bs, e2) \<Rightarrow> (b @ bs, e2)))"

definition quantumInv :: "QsrMailBase64EncoderPrivate \<Rightarrow> bytes \<Rightarrow> bool" where
  "quantumInv e pend =
     (int (length pend) = qSize e \<and> length pend \<le> 3 \<and> unat (qBuffer e) = pendValue pend)"

text \<open>
  \<open>foldingOk\<close>: folding is off, or the line is at least four characters wide and
  \<open>lineChars\<close> is within it, so that a quantum is written with at most one CR LF (six
  bytes, the room \<open>readDataImpl\<close> asks for). \<open>pendingBytes\<close>: the input bytes not yet
  encoded.
\<close>

definition foldingOk :: "'a lineEncoder_scheme \<Rightarrow> bool" where
  "foldingOk e =
     (lineWidth e \<le> 0 \<or> (4 \<le> lineWidth e \<and> 0 \<le> lineChars e \<and> lineChars e < lineWidth e))"

definition pendingBytes :: "QsrMailBase64EncoderPrivate \<Rightarrow> QIODevice \<Rightarrow> nat" where
  "pendingBytes e d = nat (qSize e) + length (avail d)"

section \<open>SASL CRAM-MD5 (qsrmailtransport.cpp)\<close>

subsection \<open>MD5, Base64 and hex of Qt\<close>

text \<open>
  \<open>cramMd5Mech\<close> calls \<open>QCryptographicHash::hash(..., Md5)\<close>, \<open>QByteArray::fromBase64\<close>,
  \<open>toBase64\<close>, \<open>toHex\<close> and \<open>toLower\<close> of Qt. They are modelled from their
  specifications: MD5 from RFC 1321 (32-bit words, little-endian), Base64 from RFC 4648.
\<close>

definition md5K :: "32 word list" where
  "md5K =
    [0xd76aa478, 0xe8c7b756, 0x242070db, 0xc1bdceee, 0xf57c0faf, 0x4787c62a, 0xa8304613, 0xfd469501,
     0x698098d8, 0x8b44f7af, 0xffff5bb1, 0x895cd7be, 0x6b901122, 0xfd987193, 0xa679438e, 0x49b40821,
     0xf61e2562, 0xc040b340, 0x265e5a51, 0xe9b6c7aa, 0xd62f105d, 0x02441453, 0xd8a1e681, 0xe7d3fbc8,
     0x21e1cde6, 0xc33707d6, 0xf4d50d87, 0x455a14ed, 0xa9e3e905, 0xfcefa3f8, 0x676f02d9, 0x8d2a4c8a,
     0xfffa3942, 0x8771f681, 0x6d9d6122, 0xfde5380c, 0xa4beea44, 0x4bdecfa9, 0xf6bb4b60, 0xbebfbc70,
     0x289b7ec6, 0xeaa127fa, 0xd4ef3085, 0x04881d05, 0xd9d4d039, 0xe6db99e5, 0x1fa27cf8, 0xc4ac5665,
     0xf4292244, 0x432aff97, 0xab9423a7, 0xfc93a039, 0x655b59c3, 0x8f0ccc92, 0xffeff47d, 0x85845dd1,
     0x6fa87e4f, 0xfe2ce6e0, 0xa3014314, 0x4e0811a1, 0xf7537e82, 0xbd3af235, 0x2ad7d2bb, 0xeb86d391]"

definition md5S :: "nat list" where
  "md5S =
    [7, 12, 17, 22, 7, 12, 17, 22, 7, 12, 17, 22, 7, 12, 17, 22,
     5, 9, 14, 20, 5, 9, 14, 20, 5, 9, 14, 20, 5, 9, 14, 20,
     4, 11, 16, 23, 4, 11, 16, 23, 4, 11, 16, 23, 4, 11, 16, 23,
     6, 10, 15, 21, 6, 10, 15, 21, 6, 10, 15, 21, 6, 10, 15, 21]"

definition rotl32 :: "32 word \<Rightarrow> nat \<Rightarrow> 32 word" where
  "rotl32 x n = push_bit n x OR drop_bit (32 - n) x"

definition md5F :: "nat \<Rightarrow> 32 word \<Rightarrow> 32 word \<Rightarrow> 32 word \<Rightarrow> 32 word" where
  "md5F i b c d =
     (if i < 16 then (b AND c) OR (NOT b AND d)
      else if i < 32 then (d AND b) OR (NOT d AND c)
      else if i < 48 then b XOR c XOR d
      else c XOR (b OR NOT d))"

definition md5G :: "nat \<Rightarrow> nat" where
  "md5G i =
     (if i < 16 then i
      else if i < 32 then (5 * i + 1) mod 16
      else if i < 48 then (3 * i + 5) mod 16
      else (7 * i) mod 16)"

type_synonym md5State = "32 word \<times> 32 word \<times> 32 word \<times> 32 word"

definition md5Step :: "32 word list \<Rightarrow> md5State \<Rightarrow> nat \<Rightarrow> md5State" where
  "md5Step M s i =
     (case s of (a, b, c, d) \<Rightarrow>
        (d, b + rotl32 (a + md5F i b c d + md5K ! i + M ! md5G i) (md5S ! i), b, c))"

fun wordsLE :: "bytes \<Rightarrow> 32 word list" where
  "wordsLE (b0 # b1 # b2 # b3 # bs) =
     (of_char b0 + push_bit 8 (of_char b1) + push_bit 16 (of_char b2) + push_bit 24 (of_char b3))
     # wordsLE bs"
| "wordsLE _ = []"

definition md5Block :: "md5State \<Rightarrow> bytes \<Rightarrow> md5State" where
  "md5Block s block =
     (case s of (a, b, c, d) \<Rightarrow>
        (case foldl (md5Step (wordsLE block)) s [0..<64] of (a', b', c', d') \<Rightarrow>
           (a + a', b + b', c + c', d + d')))"

definition md5Pad :: "bytes \<Rightarrow> bytes" where
  "md5Pad msg =
     msg @ [char_of (128::nat)] @ replicate ((119 - length msg mod 64) mod 64) (char_of (0::nat))
     @ map (\<lambda>i. char_of ((8 * int (length msg)) div 256 ^ i)) [0..<8]"

fun blocks64 :: "nat \<Rightarrow> bytes \<Rightarrow> bytes list" where
  "blocks64 0 bs = []"
| "blocks64 (Suc n) bs = take 64 bs # blocks64 n (drop 64 bs)"

definition bytesLE :: "32 word \<Rightarrow> bytes" where
  "bytesLE w = map (\<lambda>i. char_of (uint (drop_bit (8 * i) w))) [0..<4]"

definition md5 :: "bytes \<Rightarrow> bytes" where
  "md5 msg =
     (let p = md5Pad msg
      in case foldl md5Block (0x67452301, 0xefcdab89, 0x98badcfe, 0x10325476)
                (blocks64 (length p div 64) p) of
           (a, b, c, d) \<Rightarrow> bytesLE a @ bytesLE b @ bytesLE c @ bytesLE d)"

definition hexdigits :: string where
  "hexdigits = ''0123456789abcdef''"

definition toHex :: "bytes \<Rightarrow> bytes" where
  "toHex bs = concat (map (\<lambda>c. [hexdigits ! ((of_char c :: nat) div 16), hexdigits ! ((of_char c :: nat) mod 16)]) bs)"

definition toLower :: "bytes \<Rightarrow> bytes" where
  "toLower bs = map (\<lambda>c. if 65 \<le> (of_char c :: nat) \<and> (of_char c :: nat) \<le> 90
                           then char_of ((of_char c :: nat) + 32) else c) bs"

definition toBase64 :: "bytes \<Rightarrow> bytes" where
  "toBase64 bs = encodePlain bs"

text \<open>QByteArray::fromBase64: characters outside the alphabet are skipped; bits are gathered six
  at a time and a byte is produced whenever eight are there.\<close>

fun fromBase64Loop :: "nat \<Rightarrow> nat \<Rightarrow> string \<Rightarrow> bytes" where
  "fromBase64Loop buf nbits [] = []"
| "fromBase64Loop buf nbits (ch # cs) =
     (if ch \<in> set base64dict then
        (let buf1 = buf * 64 + indexOf ch base64dict; nbits1 = nbits + 6
         in if nbits1 \<ge> 8
            then char_of (buf1 div 2 ^ (nbits1 - 8))
                 # fromBase64Loop (buf1 mod 2 ^ (nbits1 - 8)) (nbits1 - 8) cs
            else fromBase64Loop buf1 nbits1 cs)
      else fromBase64Loop buf nbits cs)"

definition fromBase64 :: "bytes \<Rightarrow> bytes" where
  "fromBase64 s = fromBase64Loop 0 0 s"

definition xorByte :: "nat \<Rightarrow> char \<Rightarrow> char" where
  "xorByte k c = char_of ((of_char c :: nat) XOR k)"

subsection \<open>The response function\<close>

text \<open>
  \<open>cramMd5Mech(challenge, user, pass)\<close>: \<open>secret.append(QByteArray(64, 0)).left(64)\<close> is
  \<open>padded\<close>; the two loops XOR each of its 64 bytes with 0x36 and 0x5c.
\<close>

definition cramMd5Mech :: "bytes \<Rightarrow> bytes \<Rightarrow> bytes \<Rightarrow> bytes" where
  "cramMd5Mech challenge user pass =
     (let secret = (if length pass > 64 then md5 pass else pass);
          text = fromBase64 challenge;
          padded = take 64 (secret @ replicate 64 (char_of (0::nat)));
          ipad = map (xorByte 0x36) padded;
          opad = map (xorByte 0x5c) padded;
          ipad1 = ipad @ text;
          opad1 = opad @ md5 ipad1;
          result = toLower (toHex (md5 opad1))
      in toBase64 (user @ '' '' @ result))"

text \<open>
  The response as the specification words it: the key is the password, or its MD5 when
  longer than 64 bytes, right-padded with zero bytes to 64 bytes; inner and outer are the
  key XOR 64 bytes 0x36 and 0x5c; the digest is MD5(outer || MD5(inner || text)).
\<close>

definition xorBytes :: "bytes \<Rightarrow> bytes \<Rightarrow> bytes" where
  "xorBytes xs ys = map2 (\<lambda>x y. char_of ((of_char x :: nat) XOR of_char y)) xs ys"

definition cramMd5Spec :: "bytes \<Rightarrow> bytes \<Rightarrow> bytes \<Rightarrow> bytes" where
  "cramMd5Spec challenge user pass =
     (let key0 = (if length pass > 64 then md5 pass else pass);
          key = key0 @ replicate (64 - length key0) (char_of (0::nat));
          inner = xorBytes key (replicate 64 (char_of (0x36::nat)));
          outer = xorBytes key (replicate 64 (char_of (0x5c::nat)));
          text = fromBase64 challenge;
          digest = md5 (outer @ md5 (inner @ text))
      in toBase64 (user @ '' '' @ toHex digest))"

section \<open>The default timeout\<close>

text \<open>
  C3. The documentation of \<open>setTimeout\<close> gives 60000 ms as the value used when none is
  set; the constructor initialises the field with 6000, and that is what \<open>timeout()\<close>
  returns and what \<open>sendMessagesImpl\<close> starts the timer with.
\<close>

theorem default_timeout_is_6000:
  "timeout newTransport = 6000
   \<and> effects (sendMessages_hostname ''mail.example.org'' 25 (queueMessage newTransport))
       = [TimerStart 6000, InvokeProcessStates]"
  by (simp add: newTransport_def queueMessage_def sendMessages_hostname_def sendMessagesImpl_def)


section \<open>The state a delivery starts in\<close>

text \<open>
  C1. On a non-empty queue the hostname overload of \<open>sendMessages\<close> puts the transport
  into \<open>ResolvingState\<close>. The address overload passes \<open>ConnectedState\<close> to
  \<open>sendMessagesImpl\<close>, not \<open>ConnectingState\<close>: the run of \<open>_q_processStates\<close> that
  follows takes the branch of \<open>ConnectedState\<close>, moves to \<open>BannerState\<close> and never calls
  \<open>connectToHost\<close> (the effects added are the timer's and the queued call only).
\<close>

theorem sendMessages_address_skips_connecting:
  assumes "queue d \<noteq> []"
  shows "state (sendMessages_hostname h p d) = ResolvingState
       \<and> state (sendMessages_address a q d) = ConnectedState
       \<and> (\<exists>d'. q_processStates (sendMessages_address a q d) = Some d'
              \<and> state d' = BannerState
              \<and> effects d' = effects d @ [TimerStart (timeout d), InvokeProcessStates, TimerRestart])"
  using assms
  by (simp add: sendMessages_hostname_def sendMessages_address_def sendMessagesImpl_def
      q_processStates_def Let_def)

theorem sendMessages_address_skips_connecting_witness:
  "queue (queueMessage newTransport) \<noteq> []
   \<and> state (sendMessages_hostname ''mail.example.org'' 25 (queueMessage newTransport)) = ResolvingState
   \<and> state (sendMessages_address ''192.0.2.1'' 25 (queueMessage newTransport)) = ConnectedState
   \<and> (\<exists>d'. q_processStates (sendMessages_address ''192.0.2.1'' 25 (queueMessage newTransport)) = Some d'
          \<and> state d' = BannerState
          \<and> \<not> connectIssued d')"
proof -
  have q: "queue (queueMessage newTransport) \<noteq> []"
    by (simp add: queueMessage_def newTransport_def)
  have e: "effects (queueMessage newTransport) = []"
    by (simp add: queueMessage_def newTransport_def)
  from sendMessages_address_skips_connecting [OF q, of "''mail.example.org''" 25 "''192.0.2.1''" 25]
  show ?thesis
    using q e by (auto simp: connectIssued_def)
qed

section \<open>Finalisation and abort\<close>

text \<open>
  C4, as the code has it. Every call of \<open>finalize\<close> emits \<open>finished\<close> once, after
  \<open>error(kind)\<close> when the kind is not \<open>NoError\<close>. \<open>abort\<close> sets \<open>AbortedError\<close> and
  finalises without looking at what happened before: on any transaction, finalised or
  not, it leaves the kind \<open>AbortedError\<close> and emits \<open>error(AbortedError)\<close> and
  \<open>finished\<close>, so that the count of \<open>finished\<close> grows by one with each call.
\<close>

theorem finalize_abort_emissions:
  "emitted (finalize t) =
     emitted t @ (if error t = NoError then [] else [SigError (error t)]) @ [SigFinished]
   \<and> finishedCount (finalize t) = Suc (finishedCount t)
   \<and> error (finalize t) = error t
   \<and> error (abort t) = AbortedError
   \<and> emitted (abort t) = emitted t @ [SigError AbortedError, SigFinished]
   \<and> finishedCount (abort t) = Suc (finishedCount t)"
  by (simp add: finalize_def abort_def setError_def finishedCount_def Let_def)

text \<open>
  C4 as stated fails: a transaction finalised without error and then aborted has emitted
  \<open>finished\<close> twice, \<open>error\<close> once, and its kind has changed to \<open>AbortedError\<close>.
\<close>

theorem abort_after_finalize_counterexample:
  "error (finalize newTransaction) = NoError
   \<and> error (abort (finalize newTransaction)) = AbortedError
   \<and> emitted (finalize newTransaction) = [SigFinished]
   \<and> emitted (abort (finalize newTransaction)) = [SigFinished, SigError AbortedError, SigFinished]
   \<and> finishedCount (abort (finalize newTransaction)) = 2"
  by (simp add: finalize_def abort_def setError_def finishedCount_def newTransaction_def Let_def)

section \<open>Cooked headers: Date and User-Agent\<close>

lemma findHeader_le: "findHeader name hs \<le> length hs"
  by (induction hs) auto

lemma findHeader_end_iff: "findHeader name hs = length hs \<longleftrightarrow> name \<notin> fst ` set hs"
proof (induction hs)
  case Nil
  show ?case by simp
next
  case (Cons p ps)
  have "findHeader name ps \<le> length ps" by (rule findHeader_le)
  with Cons show ?case by auto
qed

text \<open>
  C5. \<open>hasHeader\<close> compares the iterator with \<open>constEnd()\<close> for equality, so it is true
  exactly when NO entry has the name (its documentation says the opposite). With it,
  \<open>cookHeaders\<close> on a message with no date set and no raw headers produces neither a
  \<open>Date\<close> nor a \<open>User-Agent\<close> header; and on a message with a raw \<open>Date\<close> and a raw
  \<open>User-Agent\<close> header (no date set) it replaces the raw \<open>Date\<close> by the current time and
  the raw \<open>User-Agent\<close> by the default identifier.
\<close>

theorem cookHeaders_hasHeader_inverted:
  "hasHeader name hs = (name \<notin> fst ` set hs)
   \<and> cookHeaders tools
        \<lparr>messageId = Some ''<1@localhost>'', headers = [],
         sender = \<lparr>address = [], displayName = []\<rparr>,
         fromList = [], toList = [], replyTo = [], cc = [], bcc = [],
         date = None, subject = None\<rparr>
       = [(''Message-ID'', Some ''<1@localhost>'')]
   \<and> cookHeaders tools
        \<lparr>messageId = Some ''<1@localhost>'',
         headers = [(''Date'', Some ''Thu, 01 Jan 1970 00:00:00 +0000''), (''User-Agent'', Some ''Mine'')],
         sender = \<lparr>address = [], displayName = []\<rparr>,
         fromList = [], toList = [], replyTo = [], cc = [], bcc = [],
         date = None, subject = None\<rparr>
       = (case rfc2822Date tools (currentDateTime tools) of None \<Rightarrow> [] | Some v \<Rightarrow> [(''Date'', Some v)])
         @ [(''Message-ID'', Some ''<1@localhost>''), (''User-Agent'', Some ''QsrMail 1.0.0'')]"
proof (intro conjI)
  show "hasHeader name hs = (name \<notin> fst ` set hs)"
    by (simp add: hasHeader_def findHeader_end_iff)
next
  show "cookHeaders tools
        \<lparr>messageId = Some ''<1@localhost>'', headers = [],
         sender = \<lparr>address = [], displayName = []\<rparr>,
         fromList = [], toList = [], replyTo = [], cc = [], bcc = [],
         date = None, subject = None\<rparr>
       = [(''Message-ID'', Some ''<1@localhost>'')]"
    by (simp add: cookHeaders_def appendAddresses_def hasHeader_def setHeader_def Let_def)
next
  show "cookHeaders tools
        \<lparr>messageId = Some ''<1@localhost>'',
         headers = [(''Date'', Some ''Thu, 01 Jan 1970 00:00:00 +0000''), (''User-Agent'', Some ''Mine'')],
         sender = \<lparr>address = [], displayName = []\<rparr>,
         fromList = [], toList = [], replyTo = [], cc = [], bcc = [],
         date = None, subject = None\<rparr>
       = (case rfc2822Date tools (currentDateTime tools) of None \<Rightarrow> [] | Some v \<Rightarrow> [(''Date'', Some v)])
         @ [(''Message-ID'', Some ''<1@localhost>''), (''User-Agent'', Some ''QsrMail 1.0.0'')]"
    by (simp add: cookHeaders_def appendAddresses_def hasHeader_def setHeader_def Let_def
        QSRMAIL_VERSION_STR_def split: option.split)
qed

section \<open>Recipients of the envelope\<close>

lemma foldl_insert_image: "foldl (\<lambda>s a. insert (f a) s) S xs = S \<union> f ` set xs"
  by (induction xs arbitrary: S) auto

lemma rcpts_eq: "rcpts tools m = encoded tools ` (set (toList m) \<union> set (cc m) \<union> set (bcc m))"
  by (simp add: rcpts_def recipients_def foldl_insert_image image_Un Un_assoc)

lemma dedupFirst_set: "set (dedupFirst seen xs) = set xs - set seen"
  by (induction seen xs rule: dedupFirst.induct) auto

lemma dedupFirst_distinct: "distinct (dedupFirst seen xs)"
  by (induction seen xs rule: dedupFirst.induct) (auto simp: dedupFirst_set)

text \<open>
  C6, as the code has it. Whatever order the hash set iterates in, the addresses sent as
  \<open>RCPT TO\<close> are exactly the encoded byte forms of the addresses of \<open>to\<close>, \<open>cc\<close> and
  \<open>bcc\<close>, each form once; the deduplicated insertion order is one of the possible
  orders, and nothing makes it the one taken.
\<close>

theorem rcpt_sequence_is_deduplicated_union:
  assumes "setupTransaction tools m = None" and "rcptSequence tools m xs"
  shows "set xs = encoded tools ` (set (toList m) \<union> set (cc m) \<union> set (bcc m))
       \<and> distinct xs
       \<and> xs \<noteq> []
       \<and> length xs = card (encoded tools ` (set (toList m) \<union> set (cc m) \<union> set (bcc m)))
       \<and> rcptSequence tools m (insertionOrder tools m)"
proof -
  from assms(2) have d: "distinct xs" and s: "set xs = rcpts tools m"
    by (simp_all add: rcptSequence_def)
  from assms(1) have ne: "rcpts tools m \<noteq> {}"
    by (auto simp: setupTransaction_def split: if_splits)
  have l: "length xs = card (rcpts tools m)"
    using distinct_card [OF d] s by simp
  have i: "rcptSequence tools m (insertionOrder tools m)"
    by (simp add: rcptSequence_def insertionOrder_def dedupFirst_distinct dedupFirst_set
        rcpts_eq recipients_def image_Un Un_assoc)
  from d s ne l i show ?thesis
    by (auto simp: rcpts_eq)
qed

lemma twoRecipients_rcpts: "rcpts plainTools twoRecipients = {''a@x'', ''b@y''}"
  by (simp add: rcpts_eq twoRecipients_def plainTools_def encoded_def insert_commute)

lemma twoRecipients_valid: "setupTransaction plainTools twoRecipients = None"
  by (simp add: setupTransaction_def twoRecipients_rcpts envelopeFrom_def)
     (simp add: twoRecipients_def plainTools_def encoded_def)

lemma twoRecipients_swapped: "rcptSequence plainTools twoRecipients [''b@y'', ''a@x'']"
  by (simp add: rcptSequence_def twoRecipients_rcpts insert_commute)

lemma twoRecipients_insertionOrder: "insertionOrder plainTools twoRecipients = [''a@x'', ''b@y'']"
  by (simp add: insertionOrder_def recipients_def twoRecipients_def plainTools_def encoded_def)

theorem rcpt_sequence_is_deduplicated_union_witness:
  "setupTransaction plainTools twoRecipients = None
   \<and> rcptSequence plainTools twoRecipients [''b@y'', ''a@x'']
   \<and> set [''b@y'', ''a@x''] = {''a@x'', ''b@y''}
   \<and> length [''b@y'', ''a@x''] =
       card (encoded plainTools ` (set (toList twoRecipients) \<union> set (cc twoRecipients) \<union> set (bcc twoRecipients)))"
  using rcpt_sequence_is_deduplicated_union [OF twoRecipients_valid twoRecipients_swapped]
    twoRecipients_valid twoRecipients_swapped
  by (simp add: insert_commute)

text \<open>
  C6 as stated fails: for \<open>to = [a@x, b@y]\<close>, \<open>cc = [a@x]\<close> the set holds \<open>a@x\<close> and
  \<open>b@y\<close>, and the enumeration \<open>b@y, a@x\<close> is a sequence the iteration may take; it is
  not the insertion order \<open>a@x, b@y\<close>.
\<close>

theorem rcpt_order_counterexample:
  "\<not> (\<forall>xs. rcptSequence plainTools twoRecipients xs \<longrightarrow> xs = insertionOrder plainTools twoRecipients)"
proof
  assume a: "\<forall>xs. rcptSequence plainTools twoRecipients xs \<longrightarrow> xs = insertionOrder plainTools twoRecipients"
  from a twoRecipients_swapped
  have "[''b@y'', ''a@x''] = insertionOrder plainTools twoRecipients" by blast
  then show False by (simp add: twoRecipients_insertionOrder)
qed

section \<open>Base64: round trip and shape of the output\<close>

subsection \<open>The accumulator as a number\<close>

lemma and63: "(x::32 word) AND 63 = take_bit 6 x"
  by (simp add: take_bit_eq_mask mask_eq_exp_minus_1)

lemma sextet0: "unat ((w::32 word) AND 0x3f) = unat w mod 64"
  by (simp add: and63 unsigned_take_bit_eq) (simp add: take_bit_eq_mod)

lemma drop_mask: "drop_bit k ((w::32 word) AND push_bit k (mask 6)) = take_bit 6 (drop_bit k w)"
  by (rule bit_word_eqI) (auto simp: bit_simps dest: bit_imp_le_length)

lemma unat_take6_drop: "unat (take_bit 6 (drop_bit k (w::32 word))) = unat w div 2 ^ k mod 64"
  by (simp add: unsigned_take_bit_eq unat_drop_bit_eq) (simp add: take_bit_eq_mod drop_bit_eq_div)

lemma sextet18: "unat (drop_bit 18 ((w::32 word) AND 0xfc0000)) = unat w div 262144 mod 64"
proof -
  have "(0xfc0000 :: 32 word) = push_bit 18 (mask 6)"
    by (simp add: mask_eq_exp_minus_1 push_bit_eq_mult)
  then show ?thesis
    using unat_take6_drop [of 18 w] by (simp only: drop_mask) simp
qed

lemma sextet12: "unat (drop_bit 12 ((w::32 word) AND 0x3f000)) = unat w div 4096 mod 64"
proof -
  have "(0x3f000 :: 32 word) = push_bit 12 (mask 6)"
    by (simp add: mask_eq_exp_minus_1 push_bit_eq_mult)
  then show ?thesis
    using unat_take6_drop [of 12 w] by (simp only: drop_mask) simp
qed

lemma sextet6: "unat (drop_bit 6 ((w::32 word) AND 0xfc0)) = unat w div 64 mod 64"
proof -
  have "(0xfc0 :: 32 word) = push_bit 6 (mask 6)"
    by (simp add: mask_eq_exp_minus_1 push_bit_eq_mult)
  then show ?thesis
    using unat_take6_drop [of 6 w] by (simp only: drop_mask) simp
qed

lemma of_char_take8: "(of_char c :: 32 word) = take_bit 8 (of_char c)"
proof -
  have "(of_char c :: 32 word) = of_nat (of_char c)"
    by (simp add: of_nat_of_char)
  also have "\<dots> = of_nat (take_bit 8 (of_char c))"
    by (simp add: take_bit_eq_mod)
  also have "\<dots> = take_bit 8 (of_nat (of_char c))"
    by (simp add: take_bit_of_nat)
  finally show ?thesis
    by (simp add: of_nat_of_char)
qed

lemma shift_mask_byte:
  "push_bit k (take_bit 8 (y::32 word)) AND push_bit k (mask 8) = push_bit k (take_bit 8 y)"
  by (rule bit_word_eqI) (auto simp: bit_simps)

lemma piece16: "push_bit 16 (of_char c :: 32 word) AND 0xff0000 = of_nat (of_char c * 65536)"
proof -
  have m: "(0xff0000 :: 32 word) = push_bit 16 (mask 8)"
    by (simp add: mask_eq_exp_minus_1 push_bit_eq_mult)
  have "push_bit 16 (of_char c :: 32 word) AND 0xff0000 = push_bit 16 (of_char c)"
    using shift_mask_byte [of 16 "of_char c"] by (simp only: m of_char_take8 [symmetric])
  then show ?thesis
    by (simp add: push_bit_eq_mult of_nat_of_char)
qed

lemma piece8: "push_bit 8 (of_char c :: 32 word) AND 0xff00 = of_nat (of_char c * 256)"
proof -
  have m: "(0xff00 :: 32 word) = push_bit 8 (mask 8)"
    by (simp add: mask_eq_exp_minus_1 push_bit_eq_mult)
  have "push_bit 8 (of_char c :: 32 word) AND 0xff00 = push_bit 8 (of_char c)"
    using shift_mask_byte [of 8 "of_char c"] by (simp only: m of_char_take8 [symmetric])
  then show ?thesis
    by (simp add: push_bit_eq_mult of_nat_of_char)
qed

lemma piece0: "(of_char c :: 32 word) AND 0xff = of_nat (of_char c)"
proof -
  have m: "(0xff :: 32 word) = push_bit 0 (mask 8)"
    by (simp add: mask_eq_exp_minus_1)
  have "push_bit 0 (of_char c :: 32 word) AND 0xff = push_bit 0 (of_char c)"
    using shift_mask_byte [of 0 "of_char c"] by (simp only: m of_char_take8 [symmetric])
  then show ?thesis
    by (simp add: of_nat_of_char)
qed

lemma of_char_less: "(of_char c :: nat) < 256"
proof -
  have "(of_char c :: nat) mod 256 < 256" by simp
  then show ?thesis by (simp only: of_char_mod_256)
qed

text \<open>The OR of a multiple of \<open>2 ^ k\<close> and a value below \<open>2 ^ k\<close> is their sum.\<close>

lemma nat_and_disjoint:
  assumes "b < 2 ^ k"
  shows "(a * 2 ^ k) AND b = (0::nat)"
proof (rule bit_eqI)
  fix n
  have "b = take_bit k b" using assms by (simp add: take_bit_nat_eq_self)
  then have 1: "bit b n \<Longrightarrow> n < k"
    by (metis bit_take_bit_iff)
  have 2: "bit (a * 2 ^ k) n \<Longrightarrow> k \<le> n"
    by (metis bit_push_bit_iff push_bit_eq_mult)
  from 1 2 show "bit ((a * 2 ^ k) AND b) n = bit (0::nat) n"
    by (auto simp: bit_and_iff)
qed

lemma or_is_add:
  assumes "b < 2 ^ k"
  shows "(of_nat (a * 2 ^ k) :: 32 word) OR of_nat b = of_nat (a * 2 ^ k + b)"
proof -
  have "(a * 2 ^ k) + b = (a * 2 ^ k) OR b"
    by (rule disjunctive_add_eq_or) (rule nat_and_disjoint [OF assms])
  then have "(of_nat (a * 2 ^ k + b) :: 32 word) = of_nat ((a * 2 ^ k) OR b)"
    by simp
  also have "\<dots> = of_nat (a * 2 ^ k) OR of_nat b"
    by (simp only: of_nat_or_eq)
  finally show ?thesis by simp
qed

lemma three_bytes_less:
  "x < 256 \<Longrightarrow> y < 256 \<Longrightarrow> z < 256 \<Longrightarrow> (x * 256 + y) * 256 + z < (4294967296::nat)"
  by simp

lemma quantum_value:
  "unat (((0 OR (push_bit 16 (of_char a) AND 0xff0000)) OR (push_bit 8 (of_char b) AND 0xff00))
          OR (of_char c AND 0xff) :: 32 word)
   = of_char a * 65536 + of_char b * 256 + of_char c"
proof -
  let ?A = "of_char a :: nat" and ?B = "of_char b :: nat" and ?C = "of_char c :: nat"
  have p16: "(2::nat) ^ 16 = 65536" and p8: "(2::nat) ^ 8 = 256" by simp_all
  have b: "?B * 256 < 2 ^ 16" using of_char_less [of b] by simp
  have c: "?C < 2 ^ 8" using of_char_less [of c] by simp
  have e: "?A * 65536 + ?B * 256 = (?A * 256 + ?B) * 256" by simp
  have "((0 OR (push_bit 16 (of_char a) AND 0xff0000)) OR (push_bit 8 (of_char b) AND 0xff00))
          OR (of_char c AND 0xff)
        = ((of_nat (?A * 65536) :: 32 word) OR of_nat (?B * 256)) OR of_nat ?C"
    by (simp only: piece16 piece8 piece0 or.left_neutral)
  also have "\<dots> = of_nat (?A * 65536 + ?B * 256) OR of_nat ?C"
    using or_is_add [OF b, of ?A] by (simp only: p16)
  also have "\<dots> = of_nat ((?A * 256 + ?B) * 256) OR of_nat ?C"
    by (simp only: e)
  also have "\<dots> = of_nat ((?A * 256 + ?B) * 256 + ?C)"
    using or_is_add [OF c, of "?A * 256 + ?B"] by (simp only: p8)
  finally have w: "((0 OR (push_bit 16 (of_char a) AND 0xff0000)) OR (push_bit 8 (of_char b) AND 0xff00))
          OR (of_char c AND 0xff) = (of_nat ((?A * 256 + ?B) * 256 + ?C) :: 32 word)" .
  have "(?A * 256 + ?B) * 256 + ?C < 4294967296"
    by (rule three_bytes_less) (rule of_char_less)+
  then have lt: "(?A * 256 + ?B) * 256 + ?C < 2 ^ LENGTH(32)"
    by simp
  have "unat (of_nat ((?A * 256 + ?B) * 256 + ?C) :: 32 word) = (?A * 256 + ?B) * 256 + ?C"
    using lt by (simp add: unat_of_nat take_bit_nat_eq_self del: of_nat_add of_nat_mult)
  then show ?thesis
    by (simp only: w) simp
qed

lemma split24:
  assumes "(q::nat) < 16777216"
  shows "q div 262144 mod 64 * 262144 + q div 4096 mod 64 * 4096 + q div 64 mod 64 * 64 + q mod 64 = q"
proof -
  have d1: "q div 64 div 64 = q div 4096"
    using div_mult2_eq [of q 64 64] by simp
  have d2: "q div 4096 div 64 = q div 262144"
    using div_mult2_eq [of q 4096 64] by simp
  have 0: "q = q div 64 * 64 + q mod 64" by simp
  have 1: "q div 64 = q div 64 div 64 * 64 + q div 64 mod 64" by simp
  have 2: "q div 4096 = q div 4096 div 64 * 64 + q div 4096 mod 64" by simp
  have 3: "q div 262144 mod 64 = q div 262144"
    using assms by simp
  from 0 1 2 3 d1 d2 show ?thesis by linarith
qed

lemma wrapOut_append:
  "wrapOut lw lc (xs @ ys) = wrapOut lw lc xs @ wrapOut lw (wrapLc lw lc xs) ys"
  by (induction xs arbitrary: lc) auto

lemma wrapLc_append:
  "wrapLc lw lc (xs @ ys) = wrapLc lw (wrapLc lw lc xs) ys"
  by (induction xs arbitrary: lc) auto

lemma puts_wrap:
  "puts e cs = (wrapOut (lineWidth e) (lineChars e) cs,
                e\<lparr>lineChars := wrapLc (lineWidth e) (lineChars e) cs\<rparr>)"
  by (induction cs arbitrary: e) (auto simp: put_def)

lemma putQ_puts:
  "putQ e =
     (case puts e [base64dict ! (unat (qBuffer e) div 262144 mod 64),
                   base64dict ! (unat (qBuffer e) div 4096 mod 64),
                   if 3 - qSize e = 2 then CHR ''='' else base64dict ! (unat (qBuffer e) div 64 mod 64),
                   if 3 - qSize e \<ge> 1 then CHR ''='' else base64dict ! (unat (qBuffer e) mod 64)] of
        (bs, e4) \<Rightarrow> (bs, e4\<lparr>qBuffer := 0, qSize := 0\<rparr>))"
  unfolding putQ_def sextet18 sextet12 sextet6 sextet0
  by (simp add: Let_def split: prod.splits)

lemma putQ_wrap:
  assumes "qSize e = 1 \<or> qSize e = 2 \<or> qSize e = 3"
  shows "putQ e =
     (wrapOut (lineWidth e) (lineChars e) (quantumChars (nat (qSize e)) (unat (qBuffer e))),
      e\<lparr>lineChars := wrapLc (lineWidth e) (lineChars e) (quantumChars (nat (qSize e)) (unat (qBuffer e))),
        qBuffer := 0, qSize := 0\<rparr>)"
proof -
  have q: "[base64dict ! (unat (qBuffer e) div 262144 mod 64),
            base64dict ! (unat (qBuffer e) div 4096 mod 64),
            if 3 - qSize e = 2 then CHR ''='' else base64dict ! (unat (qBuffer e) div 64 mod 64),
            if 3 - qSize e \<ge> 1 then CHR ''='' else base64dict ! (unat (qBuffer e) mod 64)]
           = quantumChars (nat (qSize e)) (unat (qBuffer e))"
    using assms by (auto simp: quantumChars_def)
  show ?thesis
    by (simp only: putQ_puts q puts_wrap prod.case)
qed

lemma unat_of_nat_small: "n < 4294967296 \<Longrightarrow> unat (of_nat n :: 32 word) = n"
  by (simp add: unat_of_nat take_bit_nat_eq_self del: of_nat_add of_nat_mult)

lemma word_of_unat: "unat (w :: 32 word) = n \<Longrightarrow> w = of_nat n"
  by auto

lemma one_byte_less: "x < 256 \<Longrightarrow> x * 65536 < (4294967296::nat)"
  by simp

lemma two_bytes_less: "x < 256 \<Longrightarrow> y < 256 \<Longrightarrow> x * 65536 + y * 256 < (4294967296::nat)"
  by simp

lemma acc0:
  assumes "unat qb = 0"
  shows "unat (accumulate qb 0 c) = of_char c * 65536"
proof -
  from assms have "qb = 0" by (simp add: unat_eq_zero)
  then have "accumulate qb 0 c = of_nat (of_char c * 65536)"
    by (simp add: accumulate_def piece16 del: of_nat_add of_nat_mult)
  moreover have "(of_char c :: nat) * 65536 < 4294967296"
    by (rule one_byte_less) (rule of_char_less)
  ultimately show ?thesis by (simp only: unat_of_nat_small)
qed

lemma acc1:
  assumes "unat qb = of_char a * 65536"
  shows "unat (accumulate qb 1 c) = of_char a * 65536 + of_char c * 256"
proof -
  have p16: "(2::nat) ^ 16 = 65536" by simp
  have c: "(of_char c :: nat) * 256 < 2 ^ 16" using of_char_less [of c] by simp
  from assms have "qb = of_nat (of_char a * 65536)" by (rule word_of_unat)
  then have "accumulate qb 1 c = of_nat (of_char a * 65536) OR of_nat (of_char c * 256)"
    by (simp add: accumulate_def piece8 del: of_nat_add of_nat_mult)
  also have "\<dots> = of_nat (of_char a * 65536 + of_char c * 256)"
    using or_is_add [OF c, of "of_char a"] by (simp only: p16)
  finally have "accumulate qb 1 c = of_nat (of_char a * 65536 + of_char c * 256)" .
  moreover have "(of_char a :: nat) * 65536 + of_char c * 256 < 4294967296"
    by (rule two_bytes_less) (rule of_char_less)+
  ultimately show ?thesis by (simp only: unat_of_nat_small)
qed

lemma acc2:
  assumes "unat qb = of_char a * 65536 + of_char b * 256"
  shows "unat (accumulate qb 2 c) = of_char a * 65536 + of_char b * 256 + of_char c"
proof -
  let ?A = "of_char a :: nat" and ?B = "of_char b :: nat" and ?C = "of_char c :: nat"
  have p8: "(2::nat) ^ 8 = 256" by simp
  have c: "?C < 2 ^ 8" using of_char_less [of c] by simp
  have e: "?A * 65536 + ?B * 256 = (?A * 256 + ?B) * 256" by simp
  from assms have "qb = of_nat (?A * 65536 + ?B * 256)" by (rule word_of_unat)
  then have "accumulate qb 2 c = of_nat (?A * 65536 + ?B * 256) OR of_nat ?C"
    by (simp add: accumulate_def piece0 del: of_nat_add of_nat_mult)
  also have "\<dots> = of_nat ((?A * 256 + ?B) * 256) OR of_nat ?C"
    by (simp only: e)
  also have "\<dots> = of_nat ((?A * 256 + ?B) * 256 + ?C)"
    using or_is_add [OF c, of "?A * 256 + ?B"] by (simp only: p8)
  finally have w: "accumulate qb 2 c = of_nat ((?A * 256 + ?B) * 256 + ?C)" .
  have "(?A * 256 + ?B) * 256 + ?C < 4294967296"
    by (rule three_bytes_less) (rule of_char_less)+
  then have "unat (accumulate qb 2 c) = (?A * 256 + ?B) * 256 + ?C"
    by (simp only: w unat_of_nat_small)
  then show ?thesis by simp
qed

lemma quantumInv_step:
  assumes "quantumInv e pend" and "qSize e < 3"
  shows "quantumInv (e\<lparr>qBuffer := accumulate (qBuffer e) (qSize e) c, qSize := qSize e + 1\<rparr>) (pend @ [c])"
proof -
  from assms have l: "int (length pend) = qSize e" and v: "unat (qBuffer e) = pendValue pend"
    and s: "length pend < 3"
    by (auto simp: quantumInv_def)
  consider "pend = []" | a where "pend = [a]" | a b where "pend = [a, b]"
    using s by (cases pend rule: pendValue.cases) auto
  then show ?thesis
  proof cases
    case 1
    with l v acc0 [of "qBuffer e" c] show ?thesis by (simp add: quantumInv_def)
  next
    case 2
    with l v acc1 [of "qBuffer e" a c] show ?thesis by (simp add: quantumInv_def)
  next
    case 3
    with l v acc2 [of "qBuffer e" a b c] show ?thesis by (simp add: quantumInv_def)
  qed
qed

lemma fillQuantum_inv:
  assumes "quantumInv e pend" and "fillQuantum e av = (e', av')"
  shows "\<exists>taken. av = taken @ av' \<and> quantumInv e' (pend @ taken)
           \<and> (qSize e' = 3 \<or> av' = [])
           \<and> lineWidth e' = lineWidth e \<and> lineChars e' = lineChars e
           \<and> gotReadChannelFinished e' = gotReadChannelFinished e"
  using assms
proof (induction e av arbitrary: pend rule: fillQuantum.induct)
  case (1 e)
  then show ?case by auto
next
  case (2 e c cs)
  show ?case
  proof (cases "qSize e < 3")
    case True
    let ?e1 = "e\<lparr>qBuffer := accumulate (qBuffer e) (qSize e) c, qSize := qSize e + 1\<rparr>"
    from True 2(3) have f: "fillQuantum ?e1 cs = (e', av')" by simp
    have i: "quantumInv ?e1 (pend @ [c])" by (rule quantumInv_step [OF 2(2) True])
    from 2(1) [OF True i f] obtain taken where
      t: "cs = taken @ av'" "quantumInv e' ((pend @ [c]) @ taken)" "qSize e' = 3 \<or> av' = []"
         "lineWidth e' = lineWidth ?e1" "lineChars e' = lineChars ?e1"
         "gotReadChannelFinished e' = gotReadChannelFinished ?e1"
      by blast
    from t have "c # cs = (c # taken) @ av' \<and> quantumInv e' (pend @ (c # taken))
           \<and> (qSize e' = 3 \<or> av' = [])
           \<and> lineWidth e' = lineWidth e \<and> lineChars e' = lineChars e
           \<and> gotReadChannelFinished e' = gotReadChannelFinished e"
      by simp
    then show ?thesis by blast
  next
    case False
    with 2(2) have "qSize e = 3" by (auto simp: quantumInv_def)
    with False 2(3) show ?thesis using 2(2) by auto
  qed
qed

subsection \<open>The output of the read loop\<close>

declare readLoop.simps [simp del]

lemma encodePlain_quantum:
  "length xs = 3 \<Longrightarrow> encodePlain (xs @ ys) = quantumChars 3 (pendValue xs) @ encodePlain ys"
  by (cases xs rule: pendValue.cases) auto

lemma quantumInv_empty: "quantumInv (e\<lparr>lineChars := lc, qBuffer := 0, qSize := 0\<rparr>) []"
  by (simp add: quantumInv_def)

lemma readLoop_correct:
  assumes "quantumInv e pend" and "length pend < 3"
    and "readLoop e d remain out = Inr (e', d', remain', out')"
  shows "\<exists>pend'. quantumInv e' pend' \<and> length pend' < 3
           \<and> out @ wrapOut (lineWidth e) (lineChars e) (encodePlain (pend @ avail d))
               = out' @ wrapOut (lineWidth e) (lineChars e') (encodePlain (pend' @ avail d'))
           \<and> lineWidth e' = lineWidth e
           \<and> gotReadChannelFinished e' = gotReadChannelFinished e
           \<and> isSequential d' = isSequential d
           \<and> remain' + int (length out') = remain + int (length out)"
  using assms
proof (induction e d remain out arbitrary: pend rule: readLoop.induct)
  case (1 e d remain out)
  note inv = "1.prems"(1) and len = "1.prems"(2) and run = "1.prems"(3)
  show ?case
  proof (cases "avail d \<noteq> [] \<and> remain > 6")
    case False
    with run have "e' = e" "d' = d" "remain' = remain" "out' = out"
      by (simp_all add: readLoop.simps [of e d remain out])
    with inv len show ?thesis by auto
  next
    case True
    from inv have q3: "\<not> 3 < qSize e" by (auto simp: quantumInv_def)
    obtain e1 rest where f: "fillQuantum e (avail d) = (e1, rest)" by fastforce
    from fillQuantum_inv [OF inv f] obtain taken where
      t: "avail d = taken @ rest" "quantumInv e1 (pend @ taken)" "qSize e1 = 3 \<or> rest = []"
         "lineWidth e1 = lineWidth e" "lineChars e1 = lineChars e"
         "gotReadChannelFinished e1 = gotReadChannelFinished e"
      by blast
    show ?thesis
    proof (cases "qSize e1 = 3")
      case q: True
      let ?Q = "quantumChars 3 (pendValue (pend @ taken))"
      let ?bs = "wrapOut (lineWidth e) (lineChars e) ?Q"
      let ?e2 = "e1\<lparr>lineChars := wrapLc (lineWidth e) (lineChars e) ?Q, qBuffer := 0, qSize := 0\<rparr>"
      from t(2) q have l3: "length (pend @ taken) = 3" and v: "unat (qBuffer e1) = pendValue (pend @ taken)"
        by (auto simp: quantumInv_def)
      from q v t(4,5) have p: "putQ e1 = (?bs, ?e2)"
        by (simp add: putQ_wrap)
      from run True q3 f q p
      have r2: "readLoop ?e2 (d\<lparr>avail := rest\<rparr>) (remain - int (length ?bs)) (out @ ?bs)
                 = Inr (e', d', remain', out')"
        by (simp add: readLoop.simps [of e d remain out])
      have i2: "quantumInv ?e2 []" by (rule quantumInv_empty)
      from "1.IH"(1) [OF True q3 f [symmetric] q p [symmetric] i2 _ r2]
      obtain pend' where
        h: "quantumInv e' pend'" "length pend' < 3"
           "(out @ ?bs) @ wrapOut (lineWidth ?e2) (lineChars ?e2) (encodePlain ([] @ avail (d\<lparr>avail := rest\<rparr>)))
              = out' @ wrapOut (lineWidth ?e2) (lineChars e') (encodePlain (pend' @ avail d'))"
           "lineWidth e' = lineWidth ?e2"
           "gotReadChannelFinished e' = gotReadChannelFinished ?e2"
           "isSequential d' = isSequential (d\<lparr>avail := rest\<rparr>)"
           "remain' + int (length out') = remain - int (length ?bs) + int (length (out @ ?bs))"
        by auto
      have "encodePlain (pend @ avail d) = ?Q @ encodePlain rest"
        using encodePlain_quantum [OF l3, of rest] t(1) by simp
      then have "out @ wrapOut (lineWidth e) (lineChars e) (encodePlain (pend @ avail d))
            = (out @ ?bs) @ wrapOut (lineWidth e) (wrapLc (lineWidth e) (lineChars e) ?Q) (encodePlain rest)"
        by (simp add: wrapOut_append)
      also have "\<dots> = out' @ wrapOut (lineWidth e) (lineChars e') (encodePlain (pend' @ avail d'))"
        using h(3) t(4) by simp
      finally show ?thesis
        using h t by auto
    next
      case q: False
      with t(3) have r: "rest = []" by simp
      from run True q3 f q
      have r2: "readLoop e1 (d\<lparr>avail := rest\<rparr>) remain out = Inr (e', d', remain', out')"
        by (simp add: readLoop.simps [of e d remain out])
      from t(2) q have l: "length (pend @ taken) < 3" by (auto simp: quantumInv_def)
      from "1.IH"(2) [OF True q3 f [symmetric] q t(2) l r2]
      obtain pend' where
        h: "quantumInv e' pend'" "length pend' < 3"
           "out @ wrapOut (lineWidth e1) (lineChars e1) (encodePlain ((pend @ taken) @ avail (d\<lparr>avail := rest\<rparr>)))
              = out' @ wrapOut (lineWidth e1) (lineChars e') (encodePlain (pend' @ avail d'))"
           "lineWidth e' = lineWidth e1"
           "gotReadChannelFinished e' = gotReadChannelFinished e1"
           "isSequential d' = isSequential (d\<lparr>avail := rest\<rparr>)"
           "remain' + int (length out') = remain + int (length out)"
        by auto
      from h t r show ?thesis by auto
    qed
  qed
qed

lemma encodePlain_short:
  "length xs = 1 \<or> length xs = 2 \<Longrightarrow> encodePlain xs = quantumChars (length xs) (pendValue xs)"
  by (cases xs rule: pendValue.cases) (auto simp: numeral_2_eq_2)

lemma readDataImpl_correct:
  assumes "quantumInv e pend" and "length pend < 3" and "readDataImpl e d m = Inr r"
  shows "\<exists>pend'. quantumInv (encoder r) pend' \<and> length pend' < 3
           \<and> wrapOut (lineWidth e) (lineChars e) (encodePlain (pend @ avail d))
               = written r @ wrapOut (lineWidth e) (lineChars (encoder r))
                                (encodePlain (pend' @ avail (source r)))
           \<and> lineWidth (encoder r) = lineWidth e
           \<and> gotReadChannelFinished (encoder r) = gotReadChannelFinished e
           \<and> isSequential (source r) = isSequential d"
proof (cases "qSize e = 0 \<and> deviceAtEnd e d")
  case True
  with assms(3) have "r = \<lparr>written = [], returned = 0, finishedEmitted = False, encoder = e, source = d\<rparr>"
    by (simp add: readDataImpl_def)
  with assms(1,2) show ?thesis by auto
next
  case False
  with assms(3) obtain e1 d1 remain1 out1 where
    l: "readLoop e d m [] = Inr (e1, d1, remain1, out1)"
    by (auto simp: readDataImpl_def split: sum.splits)
  from readLoop_correct [OF assms(1,2) l] obtain pend1 where
    h: "quantumInv e1 pend1" "length pend1 < 3"
       "wrapOut (lineWidth e) (lineChars e) (encodePlain (pend @ avail d))
          = out1 @ wrapOut (lineWidth e) (lineChars e1) (encodePlain (pend1 @ avail d1))"
       "lineWidth e1 = lineWidth e"
       "gotReadChannelFinished e1 = gotReadChannelFinished e"
       "isSequential d1 = isSequential d"
    by auto
  show ?thesis
  proof (cases "deviceAtEnd e1 d1 \<and> qSize e1 > 0")
    case flush: True
    then have av: "avail d1 = []" by (auto simp: deviceAtEnd_def split: if_splits)
    let ?Q = "quantumChars (nat (qSize e1)) (unat (qBuffer e1))"
    let ?bs = "wrapOut (lineWidth e) (lineChars e1) ?Q"
    let ?e2 = "e1\<lparr>lineChars := wrapLc (lineWidth e) (lineChars e1) ?Q, qBuffer := 0, qSize := 0\<rparr>"
    from h(1,2) flush have q: "qSize e1 = 1 \<or> qSize e1 = 2" and lp: "length pend1 = 1 \<or> length pend1 = 2"
      and n: "nat (qSize e1) = length pend1" and v: "unat (qBuffer e1) = pendValue pend1"
      by (auto simp: quantumInv_def)
    from q have "qSize e1 = 1 \<or> qSize e1 = 2 \<or> qSize e1 = 3" by auto
    from putQ_wrap [OF this] h(4) have p: "putQ e1 = (?bs, ?e2)" by simp
    from False l flush p assms(3)
    have r: "written r = out1 @ ?bs" "encoder r = ?e2" "source r = d1"
      by (auto simp: readDataImpl_def split: if_splits)
    have "encodePlain (pend1 @ avail d1) = ?Q"
      using encodePlain_short [OF lp] av n v by simp
    with h(3) have "wrapOut (lineWidth e) (lineChars e) (encodePlain (pend @ avail d))
          = written r @ wrapOut (lineWidth e) (lineChars (encoder r)) (encodePlain ([] @ avail (source r)))"
      using r av by simp
    moreover have "quantumInv (encoder r) []"
      using r(2) by (simp add: quantumInv_empty)
    ultimately show ?thesis using r h by auto
  next
    case noflush: False
    from False l noflush assms(3)
    have r: "written r = out1" "encoder r = e1" "source r = d1"
      by (auto simp: readDataImpl_def split: if_splits)
    with h show ?thesis by auto
  qed
qed

lemma readAll_correct:
  assumes "quantumInv e pend" and "length pend < 3" and "readAll e d ms = Inr (out, e', d')"
  shows "\<exists>pend'. quantumInv e' pend' \<and> length pend' < 3
           \<and> wrapOut (lineWidth e) (lineChars e) (encodePlain (pend @ avail d))
               = out @ wrapOut (lineWidth e) (lineChars e') (encodePlain (pend' @ avail d'))
           \<and> lineWidth e' = lineWidth e
           \<and> gotReadChannelFinished e' = gotReadChannelFinished e
           \<and> isSequential d' = isSequential d"
  using assms
proof (induction ms arbitrary: e d pend out)
  case Nil
  then show ?case by auto
next
  case (Cons m ms)
  from Cons.prems(3) obtain r out2 where
    r: "readDataImpl e d m = Inr r" and
    a: "readAll (encoder r) (source r) ms = Inr (out2, e', d')" and
    o: "out = written r @ out2"
    by (auto split: sum.splits)
  from readDataImpl_correct [OF Cons.prems(1,2) r] obtain pend1 where
    h: "quantumInv (encoder r) pend1" "length pend1 < 3"
       "wrapOut (lineWidth e) (lineChars e) (encodePlain (pend @ avail d))
          = written r @ wrapOut (lineWidth e) (lineChars (encoder r))
                           (encodePlain (pend1 @ avail (source r)))"
       "lineWidth (encoder r) = lineWidth e"
       "gotReadChannelFinished (encoder r) = gotReadChannelFinished e"
       "isSequential (source r) = isSequential d"
    by auto
  from Cons.IH [OF h(1,2) a] obtain pend' where
    k: "quantumInv e' pend'" "length pend' < 3"
       "wrapOut (lineWidth (encoder r)) (lineChars (encoder r)) (encodePlain (pend1 @ avail (source r)))
          = out2 @ wrapOut (lineWidth (encoder r)) (lineChars e') (encodePlain (pend' @ avail d'))"
       "lineWidth e' = lineWidth (encoder r)"
       "gotReadChannelFinished e' = gotReadChannelFinished (encoder r)"
       "isSequential d' = isSequential (source r)"
    by auto
  from h k o show ?case by auto
qed

lemma readAll_complete_output:
  assumes "readAll (openBase64 lw got) \<lparr>avail = B, isSequential = s\<rparr> ms = Inr (out, e', d')"
    and "avail d' = []" and "qSize e' = 0"
  shows "out = wrapOut lw 0 (encodePlain B)"
proof -
  have i: "quantumInv (openBase64 lw got) []"
    by (simp add: quantumInv_def openBase64_def)
  from readAll_correct [OF i _ assms(1)] obtain pend' where
    h: "quantumInv e' pend'"
       "wrapOut (lineWidth (openBase64 lw got)) (lineChars (openBase64 lw got))
           (encodePlain ([] @ avail \<lparr>avail = B, isSequential = s\<rparr>))
        = out @ wrapOut (lineWidth (openBase64 lw got)) (lineChars e') (encodePlain (pend' @ avail d'))"
    by auto
  from h(1) assms(3) have "pend' = []" by (simp add: quantumInv_def)
  with h(2) assms(2) show ?thesis by (simp add: openBase64_def)
qed

subsection \<open>The alphabet\<close>

lemma base64dict_length: "length base64dict = 64"
  by (simp add: base64dict_def)

lemma base64dict_distinct: "distinct base64dict"
  by (simp add: base64dict_def)

lemma indexOf_nth: "distinct xs \<Longrightarrow> i < length xs \<Longrightarrow> indexOf (xs ! i) xs = i"
proof (induction xs arbitrary: i)
  case Nil
  then show ?case by simp
next
  case (Cons x xs)
  then show ?case by (cases i) auto
qed

lemma b64val_dict: "i < 64 \<Longrightarrow> b64val (base64dict ! i) = i"
  using indexOf_nth [OF base64dict_distinct, of i]
  by (simp add: b64val_def base64dict_length)

lemma base64dict_no_special:
  "CHR ''='' \<notin> set base64dict \<and> CR \<notin> set base64dict \<and> LF \<notin> set base64dict"
  by (simp add: base64dict_def CR_def LF_def char_of_def)

lemma dict_in_set: "i < 64 \<Longrightarrow> base64dict ! i \<in> set base64dict"
  by (simp add: base64dict_length)

lemma dict_not_pad: "i < 64 \<Longrightarrow> base64dict ! i \<noteq> CHR ''=''"
  using dict_in_set base64dict_no_special by metis

lemma b64val_pad: "b64val (CHR ''='') = 0"
  using base64dict_no_special by (simp add: b64val_def)

subsection \<open>Decoding a quantum\<close>

lemma bytes_div_65536: "y < 256 \<Longrightarrow> z < 256 \<Longrightarrow> (x * 65536 + y * 256 + z) div 65536 = (x::nat)"
  by simp

lemma bytes_div_256: "z < 256 \<Longrightarrow> (x * 65536 + y * 256 + z) div 256 = x * 256 + (y::nat)"
  by simp

lemma bytes_mod_256: "(x * 65536 + y * 256 + z) mod 256 = (z::nat) mod 256"
proof -
  have "x * 65536 + y * 256 + z = z + (x * 256 + y) * 256" by simp
  then show ?thesis by (simp only: mod_mult_self1)
qed

lemma bytes_mod_256': "(x * 256 + y) mod 256 = (y::nat) mod 256"
proof -
  have "x * 256 + y = y + x * 256" by simp
  then show ?thesis by (simp only: mod_mult_self1)
qed

lemma char_of_byte: "char_of (of_char c :: nat) = c"
  by simp

lemma char_of_hi: "char_of (pendValue [a, b, c] div 65536) = a"
  using bytes_div_65536 [of "of_char b" "of_char c" "of_char a", OF of_char_less of_char_less]
  by (simp del: of_char_mod_256)

lemma char_of_mid: "char_of (pendValue [a, b, c] div 256) = b"
proof -
  have "pendValue [a, b, c] div 256 = of_char a * 256 + of_char b"
    using bytes_div_256 [of "of_char c" "of_char a" "of_char b", OF of_char_less] by simp
  then have "char_of (pendValue [a, b, c] div 256) = char_of ((of_char a * 256 + of_char b :: nat) mod 256)"
    by (simp only: char_of_mod_256)
  also have "\<dots> = char_of ((of_char b :: nat) mod 256)"
    by (simp only: bytes_mod_256')
  finally show ?thesis by simp
qed

lemma char_of_lo: "char_of (pendValue [a, b, c]) = c"
proof -
  have "char_of (pendValue [a, b, c]) = char_of (pendValue [a, b, c] mod 256)"
    by (simp only: char_of_mod_256)
  also have "\<dots> = char_of ((of_char c :: nat) mod 256)"
    using bytes_mod_256 [of "of_char a" "of_char b" "of_char c"] by simp
  finally show ?thesis by simp
qed

lemma pendValue3_less: "pendValue [a, b, c] < 16777216"
proof -
  have "x < 256 \<Longrightarrow> y < 256 \<Longrightarrow> z < 256 \<Longrightarrow> x * 65536 + y * 256 + z < (16777216::nat)" for x y z
    by simp
  from this [of "of_char a" "of_char b" "of_char c", OF of_char_less of_char_less of_char_less]
  show ?thesis by simp
qed

lemma decode_quantum3:
  "decodeQuads (quantumChars 3 (pendValue [a, b, c]) @ cs) = [a, b, c] @ decodeQuads cs"
proof -
  let ?W = "pendValue [a, b, c]"
  have v: "b64val (base64dict ! (?W div 262144 mod 64)) * 262144
         + b64val (base64dict ! (?W div 4096 mod 64)) * 4096
         + b64val (base64dict ! (?W div 64 mod 64)) * 64
         + b64val (base64dict ! (?W mod 64)) = ?W"
    using split24 [OF pendValue3_less [of a b c]] by (simp only: b64val_dict mod_less_divisor zero_less_numeral)
  have n3: "base64dict ! (?W div 64 mod 64) \<noteq> CHR ''=''" and n4: "base64dict ! (?W mod 64) \<noteq> CHR ''=''"
    by (rule dict_not_pad, simp)+
  show ?thesis
    unfolding quantumChars_def
    using n3 n4 by (simp add: v Let_def char_of_hi char_of_mid char_of_lo del: pendValue.simps)
qed

lemma pendValue_pad2: "pendValue [a, b] = pendValue [a, b, char_of (0::nat)]"
  by simp

lemma pendValue_pad1: "pendValue [a] = pendValue [a, char_of (0::nat), char_of (0::nat)]"
  by simp

lemma mod64_two: "(x * 65536 + y * 256) mod 64 = (0::nat)"
proof -
  have "x * 65536 + y * 256 = (x * 1024 + y * 4) * 64" by simp
  then show ?thesis by (simp only: mod_mult_self2_is_0)
qed

lemma sextet_one: "(x * 65536) div 64 mod 64 = (0::nat)"
proof -
  have "x * 65536 = (x * 1024) * 64" by simp
  then have "(x * 65536) div 64 = x * 16 * 64" by simp
  then show ?thesis by (simp only: mod_mult_self2_is_0)
qed

lemma decode_quantum2:
  "decodeQuads (quantumChars 2 (pendValue [a, b])) = [a, b]"
proof -
  let ?W = "pendValue [a, b]"
  have w: "?W < 16777216" using pendValue3_less [of a b "char_of (0::nat)"] by simp
  have z: "?W mod 64 = 0" using mod64_two [of "of_char a" "of_char b"] by simp
  have v: "b64val (base64dict ! (?W div 262144 mod 64)) * 262144
         + b64val (base64dict ! (?W div 4096 mod 64)) * 4096
         + b64val (base64dict ! (?W div 64 mod 64)) * 64
         + b64val (CHR ''='') = ?W"
    using split24 [OF w] z by (simp only: b64val_dict b64val_pad mod_less_divisor zero_less_numeral)
  have n3: "base64dict ! (?W div 64 mod 64) \<noteq> CHR ''=''"
    by (rule dict_not_pad) simp
  have h: "char_of (?W div 65536) = a" "char_of (?W div 256) = b"
    using char_of_hi [of a b "char_of (0::nat)"] char_of_mid [of a b "char_of (0::nat)"]
    by (simp_all only: pendValue_pad2)
  show ?thesis
    unfolding quantumChars_def
    using n3 by (simp add: v Let_def h del: pendValue.simps)
qed

lemma decode_quantum1:
  "decodeQuads (quantumChars 1 (pendValue [a])) = [a]"
proof -
  let ?W = "pendValue [a]"
  have w: "?W < 16777216"
    using pendValue3_less [of a "char_of (0::nat)" "char_of (0::nat)"] by simp
  have z: "?W mod 64 = 0" using mod64_two [of "of_char a" 0] by simp
  have y: "?W div 64 mod 64 = 0" using sextet_one [of "of_char a"] by simp
  have v: "b64val (base64dict ! (?W div 262144 mod 64)) * 262144
         + b64val (base64dict ! (?W div 4096 mod 64)) * 4096
         + b64val (CHR ''='') * 64
         + b64val (CHR ''='') = ?W"
    using split24 [OF w] z y by (simp only: b64val_dict b64val_pad mod_less_divisor zero_less_numeral)
  have h: "char_of (?W div 65536) = a"
    using char_of_hi [of a "char_of (0::nat)" "char_of (0::nat)"]
    by (simp only: pendValue_pad1)
  show ?thesis
    unfolding quantumChars_def
    by (simp add: v Let_def h del: pendValue.simps)
qed

lemma decodeQuads_encodePlain: "decodeQuads (encodePlain B) = B"
proof (induction B rule: encodePlain.induct)
  case 1
  show ?case by simp
next
  case (2 a)
  show ?case by (simp only: encodePlain.simps decode_quantum1)
next
  case (3 a b)
  show ?case by (simp only: encodePlain.simps decode_quantum2)
next
  case (4 a b c cs)
  then show ?case by (simp only: encodePlain.simps decode_quantum3) simp
qed

lemma quantumChars_set: "set (quantumChars n W) \<subseteq> insert (CHR ''='') (set base64dict)"
  by (auto simp: quantumChars_def dict_in_set)

lemma encodePlain_set: "set (encodePlain B) \<subseteq> insert (CHR ''='') (set base64dict)"
proof (induction B rule: encodePlain.induct)
  case 1
  show ?case by simp
next
  case (2 a)
  show ?case by (simp only: encodePlain.simps quantumChars_set)
next
  case (3 a b)
  show ?case by (simp only: encodePlain.simps quantumChars_set)
next
  case (4 a b c cs)
  with quantumChars_set [of 3 "pendValue [a, b, c]"] show ?case
    by (simp only: encodePlain.simps set_append) blast
qed

lemma encodePlain_no_crlf: "CR \<notin> set (encodePlain B) \<and> LF \<notin> set (encodePlain B)"
proof -
  have "CR \<noteq> CHR ''=''" "LF \<noteq> CHR ''=''" by (simp_all add: CR_def LF_def char_of_def)
  with encodePlain_set [of B] base64dict_no_special show ?thesis by blast
qed

lemma quantumChars_length: "length (quantumChars n W) = 4"
  by (simp add: quantumChars_def)

lemma encodePlain_length: "length (encodePlain B) = 4 * ((length B + 2) div 3)"
proof (induction B rule: encodePlain.induct)
  case (4 a b c cs)
  have "(length (a # b # c # cs) + 2) div 3 = Suc ((length cs + 2) div 3)"
    by simp
  with 4 show ?case
    by (simp add: quantumChars_length del: pendValue.simps)
qed (simp_all add: quantumChars_length del: pendValue.simps)

subsection \<open>Line folding\<close>

lemma filter_wrapOut:
  "filter (\<lambda>c. c \<noteq> CR \<and> c \<noteq> LF) (wrapOut lw lc cs) = filter (\<lambda>c. c \<noteq> CR \<and> c \<noteq> LF) cs"
  by (induction cs arbitrary: lc) auto

lemma decode_wrapOut_encodePlain: "base64_decode (wrapOut lw lc (encodePlain B)) = B"
proof -
  have "filter (\<lambda>c. c \<noteq> CR \<and> c \<noteq> LF) (encodePlain B) = encodePlain B"
    using encodePlain_no_crlf [of B] by (simp add: filter_id_conv) metis
  then show ?thesis
    by (simp add: base64_decode_def filter_wrapOut decodeQuads_encodePlain)
qed

lemma wrapOut_nofold: "lw \<le> 0 \<Longrightarrow> wrapOut lw lc cs = cs"
  by (induction cs arbitrary: lc) auto

lemma CR_neq_LF: "CR \<noteq> LF"
  by (simp add: CR_def LF_def char_of_def)

lemma wrapOut_crlfCount:
  assumes "CR \<notin> set cs" and "0 < lw" and "0 \<le> lc" and "lc < lw"
  shows "crlfCount (wrapOut lw lc cs) = (nat lc + length cs) div nat lw"
  using assms
proof (induction cs arbitrary: lc)
  case Nil
  then show ?case by (simp add: crlfCount_def)
next
  case (Cons c cs)
  from Cons.prems have c: "c \<noteq> CR" and cs: "CR \<notin> set cs" by auto
  show ?case
  proof (cases "lc + 1 \<ge> lw")
    case True
    with Cons.prems have e: "nat lc + 1 = nat lw" by simp
    have "crlfCount (wrapOut lw lc (c # cs)) = 1 + crlfCount (wrapOut lw 0 cs)"
      using True Cons.prems(2) c CR_neq_LF by (simp add: crlfCount_def)
    also have "\<dots> = 1 + length cs div nat lw"
      using Cons.IH [OF cs Cons.prems(2), of 0] Cons.prems(2) by simp
    also have "\<dots> = (nat lw + length cs) div nat lw"
      using Cons.prems(2) by (simp add: div_add_self1)
    also have "\<dots> = (nat lc + length (c # cs)) div nat lw"
    proof -
      have "nat lw + length cs = nat lc + length (c # cs)" using e by simp
      then show ?thesis by (simp only:)
    qed
    finally show ?thesis .
  next
    case False
    then have l: "lc + 1 < lw" by simp
    have "crlfCount (wrapOut lw lc (c # cs)) = crlfCount (wrapOut lw (lc + 1) cs)"
      using False Cons.prems(2) c by (simp add: crlfCount_def)
    also have "\<dots> = (nat (lc + 1) + length cs) div nat lw"
      using Cons.IH [OF cs Cons.prems(2) _ l] Cons.prems(3) by simp
    also have "\<dots> = (nat lc + length (c # cs)) div nat lw"
    proof -
      have "nat (lc + 1) + length cs = nat lc + length (c # cs)" using Cons.prems(3) by simp
      then show ?thesis by (simp only:)
    qed
    finally show ?thesis .
  qed
qed

lemma wrapOut_length:
  assumes "CR \<notin> set cs"
  shows "length (wrapOut lw lc cs) = length cs + 2 * crlfCount (wrapOut lw lc cs)"
  using assms CR_neq_LF
  by (induction cs arbitrary: lc) (auto simp: crlfCount_def)

lemma lineLengths_skip: "c \<noteq> CR \<Longrightarrow> lineLengths k (c # xs) = lineLengths (Suc k) xs"
  by (cases xs) auto

lemma wrapOut_lines:
  assumes "CR \<notin> set cs" and "0 < lw" and "0 \<le> lc" and "lc < lw"
  shows "\<forall>l \<in> set (lineLengths (nat lc) (wrapOut lw lc cs)). int l \<le> lw"
  using assms
proof (induction cs arbitrary: lc)
  case Nil
  then show ?case by simp
next
  case (Cons c cs)
  from Cons.prems have c: "c \<noteq> CR" and cs: "CR \<notin> set cs" by auto
  show ?case
  proof (cases "lc + 1 \<ge> lw")
    case True
    have "lineLengths (nat lc) (wrapOut lw lc (c # cs))
          = lineLengths (Suc (nat lc)) (CR # LF # wrapOut lw 0 cs)"
      using True Cons.prems(2) c by (simp add: lineLengths_skip)
    also have "\<dots> = Suc (nat lc) # lineLengths 0 (wrapOut lw 0 cs)"
      by simp
    finally have "set (lineLengths (nat lc) (wrapOut lw lc (c # cs)))
          = insert (Suc (nat lc)) (set (lineLengths (nat 0) (wrapOut lw 0 cs)))"
      by simp
    moreover have "\<forall>l \<in> set (lineLengths (nat 0) (wrapOut lw 0 cs)). int l \<le> lw"
      by (rule Cons.IH [OF cs Cons.prems(2)]) (use Cons.prems(2) in simp_all)
    moreover have "int (Suc (nat lc)) \<le> lw" using Cons.prems by simp
    ultimately show ?thesis by (simp only: Ball_def insert_iff) blast
  next
    case False
    then have l: "lc + 1 < lw" by simp
    have "lineLengths (nat lc) (wrapOut lw lc (c # cs))
          = lineLengths (Suc (nat lc)) (wrapOut lw (lc + 1) cs)"
      using False Cons.prems(2) c by (simp add: lineLengths_skip)
    moreover have "Suc (nat lc) = nat (lc + 1)" using Cons.prems(3) by simp
    moreover have "\<forall>l \<in> set (lineLengths (nat (lc + 1)) (wrapOut lw (lc + 1) cs)). int l \<le> lw"
      by (rule Cons.IH [OF cs Cons.prems(2) _ l]) (use Cons.prems(3) in simp)
    ultimately show ?thesis by (simp only:)
  qed
qed

lemma wrapLc_range:
  assumes "0 < lw" and "0 \<le> lc" and "lc < lw"
  shows "0 \<le> wrapLc lw lc cs \<and> wrapLc lw lc cs < lw"
  using assms by (induction cs arbitrary: lc) auto

lemma quantumChars_no_CR: "CR \<notin> set (quantumChars n W)"
proof -
  have "CR \<noteq> CHR ''=''" by (simp add: CR_def char_of_def)
  with quantumChars_set [of n W] base64dict_no_special show ?thesis by blast
qed

lemma putQ_bounded:
  assumes "foldingOk e" and "qSize e = 1 \<or> qSize e = 2 \<or> qSize e = 3" and "putQ e = (bs, e2)"
  shows "length bs \<le> 6 \<and> foldingOk e2 \<and> qSize e2 = 0"
proof -
  let ?Q = "quantumChars (nat (qSize e)) (unat (qBuffer e))"
  from putQ_wrap [OF assms(2)] assms(3)
  have bs: "bs = wrapOut (lineWidth e) (lineChars e) ?Q"
    and e2: "e2 = e\<lparr>lineChars := wrapLc (lineWidth e) (lineChars e) ?Q, qBuffer := 0, qSize := 0\<rparr>"
    by simp_all
  show ?thesis
  proof (cases "lineWidth e \<le> 0")
    case True
    with bs e2 show ?thesis
      by (simp add: wrapOut_nofold quantumChars_length foldingOk_def)
  next
    case False
    with assms(1) have w: "4 \<le> lineWidth e" "0 < lineWidth e" "0 \<le> lineChars e" "lineChars e < lineWidth e"
      by (auto simp: foldingOk_def)
    have "crlfCount bs = (nat (lineChars e) + 4) div nat (lineWidth e)"
      using wrapOut_crlfCount [OF quantumChars_no_CR w(2,3,4)] bs
      by (simp add: quantumChars_length)
    also have "\<dots> \<le> 1"
    proof -
      have "nat (lineChars e) + 4 < 2 * nat (lineWidth e)" using w by simp
      then have "(nat (lineChars e) + 4) div nat (lineWidth e) < 2"
        using w(2) by (simp add: div_less_iff_less_mult mult.commute)
      then show ?thesis by simp
    qed
    finally have "crlfCount bs \<le> 1" .
    moreover have "length bs = 4 + 2 * crlfCount bs"
      using wrapOut_length [OF quantumChars_no_CR] bs by (simp add: quantumChars_length)
    ultimately have "length bs \<le> 6" by simp
    moreover have "foldingOk e2"
      using wrapLc_range [OF w(2,3,4)] w(1) e2 by (simp add: foldingOk_def)
    ultimately show ?thesis using e2 by simp
  qed
qed

lemma readLoop_total:
  assumes "quantumInv e pend" and "length pend < 3" and "foldingOk e"
    and "0 \<le> remain" and "6 < remain \<or> qSize e = 0"
  shows "\<exists>e' d' remain' out'. readLoop e d remain out = Inr (e', d', remain', out')
           \<and> 0 \<le> remain' \<and> (6 < remain' \<or> qSize e' = 0) \<and> foldingOk e'
           \<and> (avail d' = [] \<or> remain' \<le> 6)
           \<and> nat (qSize e') + length (avail d') \<le> nat (qSize e) + length (avail d)
           \<and> (avail d \<noteq> [] \<and> 6 < remain \<longrightarrow>
                 avail d' = [] \<or> nat (qSize e') + length (avail d') + 3 \<le> nat (qSize e) + length (avail d))"
  using assms
proof (induction e d remain out arbitrary: pend rule: readLoop.induct)
  case (1 e d remain out)
  note inv = "1.prems"(1) and len = "1.prems"(2) and ok = "1.prems"(3)
    and r0 = "1.prems"(4) and r6 = "1.prems"(5)
  show ?case
  proof (cases "avail d \<noteq> [] \<and> remain > 6")
    case False
    then have "readLoop e d remain out = Inr (e, d, remain, out)"
      by (auto simp: readLoop.simps [of e d remain out])
    with False ok r0 r6 show ?thesis by auto
  next
    case True
    from inv have q3: "\<not> 3 < qSize e" and qe: "qSize e = int (length pend)"
      by (auto simp: quantumInv_def)
    obtain e1 rest where f: "fillQuantum e (avail d) = (e1, rest)" by fastforce
    from fillQuantum_inv [OF inv f] obtain taken where
      t: "avail d = taken @ rest" "quantumInv e1 (pend @ taken)" "qSize e1 = 3 \<or> rest = []"
         "lineWidth e1 = lineWidth e" "lineChars e1 = lineChars e"
      by blast
    from t(2) have q1: "qSize e1 = int (length pend + length taken)"
      by (simp add: quantumInv_def)
    from ok t(4,5) have ok1: "foldingOk e1" by (simp add: foldingOk_def)
    have mu: "nat (qSize e1) + length rest = nat (qSize e) + length (avail d)"
      using q1 qe t(1) by simp
    show ?thesis
    proof (cases "qSize e1 = 3")
      case q: True
      obtain bs e2 where p: "putQ e1 = (bs, e2)" by fastforce
      from q have "qSize e1 = 1 \<or> qSize e1 = 2 \<or> qSize e1 = 3" by simp
      from putQ_bounded [OF ok1 this p] have b: "length bs \<le> 6" "foldingOk e2" "qSize e2 = 0"
        by simp_all
      from b(3) have i2: "quantumInv e2 []"
        using putQ_wrap [of e1] q p by (auto simp: quantumInv_def)
      from True b(1) have r0': "0 \<le> remain - int (length bs)" by simp
      from "1.IH"(1) [OF True q3 f [symmetric] q p [symmetric] i2 _ b(2) r0'] b(3)
      obtain e' d' remain' out' where
        h: "readLoop e2 (d\<lparr>avail := rest\<rparr>) (remain - int (length bs)) (out @ bs)
              = Inr (e', d', remain', out')"
           "0 \<le> remain'" "6 < remain' \<or> qSize e' = 0" "foldingOk e'"
           "avail d' = [] \<or> remain' \<le> 6"
           "nat (qSize e') + length (avail d') \<le> nat (qSize e2) + length (avail (d\<lparr>avail := rest\<rparr>))"
        by auto
      from True q3 f q p h(1)
      have "readLoop e d remain out = Inr (e', d', remain', out')"
        by (simp add: readLoop.simps [of e d remain out])
      moreover have "nat (qSize e') + length (avail d') + 3 \<le> nat (qSize e) + length (avail d)"
        using h(6) b(3) mu q by simp
      ultimately show ?thesis using h by auto
    next
      case q: False
      with t(3) have r: "rest = []" by simp
      from t(2) q have l: "length (pend @ taken) < 3" by (auto simp: quantumInv_def)
      from True have r6': "6 < remain \<or> qSize e1 = 0" by simp
      from "1.IH"(2) [OF True q3 f [symmetric] q t(2) l ok1 r0 r6']
      obtain e' d' remain' out' where
        h: "readLoop e1 (d\<lparr>avail := rest\<rparr>) remain out = Inr (e', d', remain', out')"
           "0 \<le> remain'" "6 < remain' \<or> qSize e' = 0" "foldingOk e'"
           "avail d' = [] \<or> remain' \<le> 6"
           "nat (qSize e') + length (avail d') \<le> nat (qSize e1) + length (avail (d\<lparr>avail := rest\<rparr>))"
        by auto
      from h(1) r have "e' = e1" "d' = d\<lparr>avail := []\<rparr>"
        by (simp_all add: readLoop.simps [of e1 "d\<lparr>avail := []\<rparr>" remain out])
      then have "avail d' = []" by simp
      moreover from True q3 f q h(1)
      have "readLoop e d remain out = Inr (e', d', remain', out')"
        by (simp add: readLoop.simps [of e d remain out])
      moreover have "nat (qSize e') + length (avail d') \<le> nat (qSize e) + length (avail d)"
        using h(6) mu by simp
      ultimately show ?thesis using h by auto
    qed
  qed
qed

lemma readDataImpl_total:
  assumes "quantumInv e pend" and "length pend < 3" and "foldingOk e" and "6 < m"
    and "isSequential d \<longrightarrow> gotReadChannelFinished e"
  shows "\<exists>r. readDataImpl e d m = Inr r \<and> foldingOk (encoder r)
           \<and> (pendingBytes (encoder r) (source r) = 0
                \<or> pendingBytes (encoder r) (source r) + 3 \<le> pendingBytes e d)"
proof (cases "qSize e = 0 \<and> deviceAtEnd e d")
  case True
  then have "avail d = []" by (auto simp: deviceAtEnd_def split: if_splits)
  with True assms(3) show ?thesis
    by (simp add: readDataImpl_def pendingBytes_def)
next
  case False
  from assms(4) have m0: "0 \<le> m" and m6: "6 < m \<or> qSize e = 0" by simp_all
  from readLoop_total [OF assms(1,2,3) m0 m6, of d "[]"]
  obtain e1 d1 remain1 out1 where
    l: "readLoop e d m [] = Inr (e1, d1, remain1, out1)"
    and h: "0 \<le> remain1" "6 < remain1 \<or> qSize e1 = 0" "foldingOk e1"
       "avail d1 = [] \<or> remain1 \<le> 6"
       "nat (qSize e1) + length (avail d1) \<le> nat (qSize e) + length (avail d)"
       "avail d \<noteq> [] \<and> 6 < m \<longrightarrow>
          avail d1 = [] \<or> nat (qSize e1) + length (avail d1) + 3 \<le> nat (qSize e) + length (avail d)"
    by blast
  from readLoop_correct [OF assms(1,2) l] obtain pend1 where
    c: "quantumInv e1 pend1" "length pend1 < 3"
       "gotReadChannelFinished e1 = gotReadChannelFinished e" "isSequential d1 = isSequential d"
    by auto
  from c(1,2) have q1: "0 \<le> qSize e1" "qSize e1 < 3" by (auto simp: quantumInv_def)
  show ?thesis
  proof (cases "deviceAtEnd e1 d1")
    case atEnd: True
    then have av: "avail d1 = []" by (auto simp: deviceAtEnd_def split: if_splits)
    show ?thesis
    proof (cases "qSize e1 > 0")
      case True
      obtain bs e2 where p: "putQ e1 = (bs, e2)" by fastforce
      from True q1 have "qSize e1 = 1 \<or> qSize e1 = 2 \<or> qSize e1 = 3" by auto
      from putQ_bounded [OF h(3) this p] have b: "length bs \<le> 6" "foldingOk e2" "qSize e2 = 0"
        by simp_all
      from True h(2) b(1) have "\<not> remain1 - int (length bs) < 0" by simp
      with False l atEnd True p
      have "readDataImpl e d m = Inr \<lparr>written = out1 @ bs, returned = m - (remain1 - int (length bs)),
                finishedEmitted = True, encoder = e2, source = d1\<rparr>"
        by (auto simp: readDataImpl_def)
      with b av show ?thesis by (simp add: pendingBytes_def)
    next
      case noq: False
      with q1 have z: "qSize e1 = 0" by simp
      from h(1) have "\<not> remain1 < 0" by simp
      with False l atEnd noq
      have "readDataImpl e d m = Inr \<lparr>written = out1, returned = m - remain1,
                finishedEmitted = True, encoder = e1, source = d1\<rparr>"
        by (auto simp: readDataImpl_def)
      with h(3) av z show ?thesis by (simp add: pendingBytes_def)
    qed
  next
    case notEnd: False
    from notEnd c(3,4) assms(5) have av1: "avail d1 \<noteq> []"
      by (auto simp: deviceAtEnd_def split: if_splits)
    have avd: "avail d \<noteq> []"
    proof
      assume "avail d = []"
      then have "readLoop e d m [] = Inr (e, d, m, [])"
        by (simp add: readLoop.simps [of e d m "[]"])
      with l av1 \<open>avail d = []\<close> show False by simp
    qed
    from h(1) have "\<not> remain1 < 0" by simp
    with False l notEnd
    have "readDataImpl e d m = Inr \<lparr>written = out1, returned = m - remain1,
              finishedEmitted = False, encoder = e1, source = d1\<rparr>"
      by (auto simp: readDataImpl_def)
    moreover from h(6) avd assms(4) av1
    have "nat (qSize e1) + length (avail d1) + 3 \<le> nat (qSize e) + length (avail d)"
      by simp
    ultimately show ?thesis using h(3) by (simp add: pendingBytes_def)
  qed
qed

lemma readAll_total:
  assumes "quantumInv e pend" and "length pend < 3" and "foldingOk e"
    and "\<forall>m \<in> set ms. 6 < m"
    and "isSequential d \<longrightarrow> gotReadChannelFinished e"
    and "pendingBytes e d = 0 \<or> pendingBytes e d div 3 < length ms"
  shows "\<exists>out e' d'. readAll e d ms = Inr (out, e', d') \<and> avail d' = [] \<and> qSize e' = 0"
  using assms
proof (induction ms arbitrary: e d pend)
  case Nil
  from Nil.prems(6) have "pendingBytes e d = 0" by simp
  moreover from Nil.prems(1) have "0 \<le> qSize e" by (auto simp: quantumInv_def)
  ultimately show ?case by (simp add: pendingBytes_def)
next
  case (Cons m ms)
  from Cons.prems(4) have m: "6 < m" and ms: "\<forall>m \<in> set ms. 6 < m" by simp_all
  from readDataImpl_total [OF Cons.prems(1,2,3) m Cons.prems(5)] obtain r where
    r: "readDataImpl e d m = Inr r" "foldingOk (encoder r)"
       "pendingBytes (encoder r) (source r) = 0
        \<or> pendingBytes (encoder r) (source r) + 3 \<le> pendingBytes e d"
    by blast
  from readDataImpl_correct [OF Cons.prems(1,2) r(1)] obtain pend1 where
    c: "quantumInv (encoder r) pend1" "length pend1 < 3"
       "gotReadChannelFinished (encoder r) = gotReadChannelFinished e"
       "isSequential (source r) = isSequential d"
    by auto
  from c(3,4) Cons.prems(5)
  have g: "isSequential (source r) \<longrightarrow> gotReadChannelFinished (encoder r)" by simp
  have p: "pendingBytes (encoder r) (source r) = 0
           \<or> pendingBytes (encoder r) (source r) div 3 < length ms"
  proof (cases "pendingBytes (encoder r) (source r) = 0")
    case True
    then show ?thesis by simp
  next
    case False
    with r(3) have le: "pendingBytes (encoder r) (source r) + 3 \<le> pendingBytes e d" by simp
    then have "pendingBytes e d \<noteq> 0" by simp
    with Cons.prems(6) have "pendingBytes e d div 3 < Suc (length ms)" by simp
    moreover from le have "pendingBytes (encoder r) (source r) div 3 + 1 \<le> pendingBytes e d div 3"
      by (metis div_add_self2 div_le_mono zero_neq_numeral)
    ultimately show ?thesis by simp
  qed
  from Cons.IH [OF c(1,2) r(2) ms g p] obtain out e' d' where
    "readAll (encoder r) (source r) ms = Inr (out, e', d')" "avail d' = []" "qSize e' = 0"
    by blast
  with r(1) show ?case by simp
qed

subsection \<open>Round trip, length and line lengths\<close>

text \<open>
  C7. The encoder is opened on a source holding the bytes \<open>B\<close> and read with buffers of
  the sizes \<open>ms\<close>. Whenever the reads end with all input consumed and the accumulator
  empty, the concatenated output \<open>out\<close> decodes back to \<open>B\<close>, its length is
  \<open>4 * ceil(n / 3)\<close> plus two bytes for each inserted CR LF (there are
  \<open>4 * ceil(n / 3) div lineWidth\<close> of them when \<open>lineWidth > 0\<close>, none otherwise), and with
  \<open>lineWidth > 0\<close> no line between them is longer than \<open>lineWidth\<close>. The reads do end so:
  with folding off or lines of at least four characters, buffers of more than six bytes
  (the room \<open>readDataImpl\<close> asks for), a source that is random-access or has signalled
  its end, and more than \<open>n div 3\<close> reads.
\<close>

theorem base64_roundtrip_and_shape:
  "(readAll (openBase64 lw got) \<lparr>avail = B, isSequential = s\<rparr> ms = Inr (out, e', d')
      \<and> avail d' = [] \<and> qSize e' = 0
     \<longrightarrow> base64_decode out = B
         \<and> length out = 4 * ((length B + 2) div 3) + 2 * crlfCount out
         \<and> crlfCount out = (if 0 < lw then 4 * ((length B + 2) div 3) div nat lw else 0)
         \<and> (0 < lw \<longrightarrow> (\<forall>l \<in> set (lineLengths 0 out). int l \<le> lw)))
   \<and> ((lw \<le> 0 \<or> 4 \<le> lw) \<and> (s \<longrightarrow> got) \<and> (\<forall>m \<in> set ms. 6 < m) \<and> length B div 3 < length ms
     \<longrightarrow> (\<exists>out e' d'. readAll (openBase64 lw got) \<lparr>avail = B, isSequential = s\<rparr> ms = Inr (out, e', d')
            \<and> avail d' = [] \<and> qSize e' = 0))"
proof (intro conjI impI)
  assume a: "readAll (openBase64 lw got) \<lparr>avail = B, isSequential = s\<rparr> ms = Inr (out, e', d')
      \<and> avail d' = [] \<and> qSize e' = 0"
  then have out: "out = wrapOut lw 0 (encodePlain B)"
    using readAll_complete_output [of lw got B s ms out e' d'] by simp
  have cr: "CR \<notin> set (encodePlain B)" using encodePlain_no_crlf by simp
  show "base64_decode out = B"
    by (simp only: out decode_wrapOut_encodePlain)
  show "length out = 4 * ((length B + 2) div 3) + 2 * crlfCount out"
    using wrapOut_length [OF cr, of lw 0] by (simp only: out encodePlain_length)
  show "crlfCount out = (if 0 < lw then 4 * ((length B + 2) div 3) div nat lw else 0)"
  proof (cases "0 < lw")
    case True
    with wrapOut_crlfCount [OF cr True, of 0] show ?thesis
      by (simp add: out encodePlain_length)
  next
    case False
    then have "wrapOut lw 0 (encodePlain B) = encodePlain B" by (simp add: wrapOut_nofold)
    with cr False show ?thesis by (auto simp: out crlfCount_def filter_empty_conv)
  qed
  show "\<forall>l \<in> set (lineLengths 0 out). int l \<le> lw" if "0 < lw"
    using wrapOut_lines [OF cr that, of 0] that by (simp add: out)
next
  assume a: "(lw \<le> 0 \<or> 4 \<le> lw) \<and> (s \<longrightarrow> got) \<and> (\<forall>m \<in> set ms. 6 < m) \<and> length B div 3 < length ms"
  have i: "quantumInv (openBase64 lw got) []"
    by (simp add: quantumInv_def openBase64_def)
  have f: "foldingOk (openBase64 lw got)"
    using a by (auto simp: foldingOk_def openBase64_def)
  have g: "isSequential \<lparr>avail = B, isSequential = s\<rparr> \<longrightarrow> gotReadChannelFinished (openBase64 lw got)"
    using a by (simp add: openBase64_def)
  have p: "pendingBytes (openBase64 lw got) \<lparr>avail = B, isSequential = s\<rparr> = 0
           \<or> pendingBytes (openBase64 lw got) \<lparr>avail = B, isSequential = s\<rparr> div 3 < length ms"
    using a by (simp add: pendingBytes_def openBase64_def)
  from a have m: "\<forall>m \<in> set ms. 6 < m" by simp
  show "\<exists>out e' d'. readAll (openBase64 lw got) \<lparr>avail = B, isSequential = s\<rparr> ms = Inr (out, e', d')
            \<and> avail d' = [] \<and> qSize e' = 0"
    by (rule readAll_total [OF i _ f m g p]) simp
qed

text \<open>The theorem at \<open>lineWidth = 4\<close>, the input \<open>abcde\<close> and two reads of seven bytes.\<close>

lemma base64_example_run:
  "readAll (openBase64 4 False) \<lparr>avail = ''abcde'', isSequential = False\<rparr> [7, 7]
   = Inr (''YWJj'' @ [CR, LF] @ ''ZGU='' @ [CR, LF],
          \<lparr>gotReadChannelFinished = False, lineWidth = 4, lineChars = 0, qBuffer = 0, qSize = 0\<rparr>,
          \<lparr>avail = [], isSequential = False\<rparr>)"
  by code_simp

theorem base64_roundtrip_and_shape_witness:
  "readAll (openBase64 4 False) \<lparr>avail = ''abcde'', isSequential = False\<rparr> [7, 7]
     = Inr (''YWJj'' @ [CR, LF] @ ''ZGU='' @ [CR, LF],
          \<lparr>gotReadChannelFinished = False, lineWidth = 4, lineChars = 0, qBuffer = 0, qSize = 0\<rparr>,
          \<lparr>avail = [], isSequential = False\<rparr>)
   \<and> base64_decode (''YWJj'' @ [CR, LF] @ ''ZGU='' @ [CR, LF]) = ''abcde''
   \<and> length (''YWJj'' @ [CR, LF] @ ''ZGU='' @ [CR, LF])
       = 4 * ((length ''abcde'' + 2) div 3) + 2 * crlfCount (''YWJj'' @ [CR, LF] @ ''ZGU='' @ [CR, LF])
   \<and> crlfCount (''YWJj'' @ [CR, LF] @ ''ZGU='' @ [CR, LF]) = 4 * ((length ''abcde'' + 2) div 3) div nat 4
   \<and> list_all (\<lambda>l. int l \<le> 4) (lineLengths 0 (''YWJj'' @ [CR, LF] @ ''ZGU='' @ [CR, LF]))
   \<and> (4::int) \<le> 4 \<and> list_all (\<lambda>m. 6 < m) [7, 7::int] \<and> length ''abcde'' div 3 < length [7, 7::int]"
proof -
  let ?out = "''YWJj'' @ [CR, LF] @ ''ZGU='' @ [CR, LF]"
  let ?e = "\<lparr>gotReadChannelFinished = False, lineWidth = 4, lineChars = 0, qBuffer = 0, qSize = 0\<rparr>"
  let ?d = "\<lparr>avail = [], isSequential = False\<rparr>"
  note T = base64_roundtrip_and_shape [of 4 False "''abcde''" False "[7, 7]" ?out ?e ?d]
  have p: "readAll (openBase64 4 False) \<lparr>avail = ''abcde'', isSequential = False\<rparr> [7, 7]
             = Inr (?out, ?e, ?d) \<and> avail ?d = [] \<and> qSize ?e = 0"
    by (simp only: base64_example_run) simp
  from T [THEN conjunct1, THEN mp, OF p]
  have c: "base64_decode ?out = ''abcde''"
    "length ?out = 4 * ((length ''abcde'' + 2) div 3) + 2 * crlfCount ?out"
    "crlfCount ?out = (if (0::int) < 4 then 4 * ((length ''abcde'' + 2) div 3) div nat 4 else 0)"
    "(0::int) < 4 \<longrightarrow> (\<forall>l \<in> set (lineLengths 0 ?out). int l \<le> 4)"
    by blast+
  from c(3) have c3: "crlfCount ?out = 4 * ((length ''abcde'' + 2) div 3) div nat 4"
    by (simp only: zero_less_numeral if_True)
  from c(4) have c4: "list_all (\<lambda>l. int l \<le> 4) (lineLengths 0 ?out)"
    by (simp only: zero_less_numeral list_all_iff simp_thms)
  have h: "(4::int) \<le> 4 \<and> list_all (\<lambda>m. 6 < m) [7, 7::int] \<and> length ''abcde'' div 3 < length [7, 7::int]"
    by simp
  from base64_example_run c(1,2) c3 c4 h show ?thesis
    by (simp only: simp_thms)
qed

section \<open>Quoted-Printable: a TAB or SPACE near the end of the input\<close>

declare qpLoop.simps [simp del]

lemma qpIter_stalled: "stalled av \<Longrightarrow> qpIter tm e av r out = Stop e av r out"
  by (cases av) (auto simp: stalled_def qpIter_def)

lemma qpLoop_stalled: "stalled av \<Longrightarrow> qpLoop tm e av r out = (e, av, r, out)"
  by (simp add: qpLoop.simps [of tm e av r out] qpIter_stalled)

lemma stalled_not_empty: "stalled av \<Longrightarrow> av \<noteq> []"
  by (auto simp: stalled_def)

lemma qpReadDataImpl_stalled:
  assumes "stalled (avail d)"
  shows "qpReadDataImpl tm e d m
         = Inr \<lparr>written = [], returned = 0, finishedEmitted = False, encoder = e, source = d\<rparr>"
proof -
  from assms have ne: "avail d \<noteq> []" by (rule stalled_not_empty)
  then have "\<not> deviceAtEnd e d" by (simp add: deviceAtEnd_def)
  with ne show ?thesis
    by (simp add: qpReadDataImpl_def qpLoop_stalled [OF assms] deviceAtEnd_def)
qed

lemma qpReadAll_stalled:
  assumes "stalled (avail d)"
  shows "qpReadAll tm e d ms = Inr ([], replicate (length ms) 0, False, e, d)"
  by (induction ms) (simp_all add: qpReadDataImpl_stalled [OF assms])

lemma TAB_SPC_distinct: "TAB \<noteq> CR" "SPC \<noteq> CR" "TAB \<noteq> LF" "SPC \<noteq> LF"
  by (simp_all add: TAB_def SPC_def CR_def LF_def char_of_def)

lemma qpEmit_device:
  "qpEmit e c dv f r out = Next e' av' r' out' \<or> qpEmit e c dv f r out = Stop e' av' r' out'
   \<Longrightarrow> av' = dv \<or> av' = c # dv"
  by (auto simp: qpEmit_def Let_def split: if_splits)

lemma qpIter_endsBlank:
  assumes "endsBlank av"
    and "qpIter tm e av r out = Next e' av' r' out' \<or> qpIter tm e av r out = Stop e' av' r' out'"
  shows "endsBlank av' \<and> last av' = last av"
proof (cases av)
  case Nil
  with assms(1) show ?thesis by (simp add: endsBlank_def)
next
  case (Cons c rest)
  note av = Cons
  show ?thesis
  proof (cases "(c = TAB \<or> c = SPC) \<and> length (take 2 rest) \<noteq> 2")
    case True
    with assms av show ?thesis by (auto simp: qpIter_def)
  next
    case peek: False
    have rest: "rest \<noteq> []"
    proof
      assume "rest = []"
      with av assms(1) have "c = TAB \<or> c = SPC" by (simp add: endsBlank_def)
      with peek \<open>rest = []\<close> show False by simp
    qed
    with av assms(1) have eb: "endsBlank rest" and l: "last av = last rest"
      by (simp_all add: endsBlank_def)
    show ?thesis
    proof (cases "c = CR")
      case cr: True
      from rest obtain c2 rest2 where r2: "rest = c2 # rest2" by (cases rest) auto
      show ?thesis
      proof (cases "c2 = LF")
        case True
        have "rest2 \<noteq> []"
        proof
          assume "rest2 = []"
          with r2 eb True show False using TAB_SPC_distinct by (auto simp: endsBlank_def)
        qed
        with eb r2 have "endsBlank rest2" "last rest2 = last rest" "endsBlank (c2 # rest2)"
          by (simp_all add: endsBlank_def)
        with assms(2) av cr r2 True peek l show ?thesis
          using TAB_SPC_distinct by (auto simp: qpIter_def Let_def split: if_splits)
      next
        case False
        with assms(2) av cr r2 peek
        have "qpEmit e c2 (c2 # rest2) ((c = TAB \<or> c = SPC) \<and> take 2 rest = [CR, LF]) r out = Next e' av' r' out'
              \<or> qpEmit e c2 (c2 # rest2) ((c = TAB \<or> c = SPC) \<and> take 2 rest = [CR, LF]) r out = Stop e' av' r' out'"
          using TAB_SPC_distinct by (auto simp: qpIter_def Let_def split: if_splits)
        from qpEmit_device [OF this] have "av' = c2 # rest2 \<or> av' = c2 # c2 # rest2" .
        with eb r2 l show ?thesis by (auto simp: endsBlank_def)
      qed
    next
      case nocr: False
      show ?thesis
      proof (cases "tm \<and> c = LF")
        case True
        with assms(2) av nocr peek eb l show ?thesis
          using TAB_SPC_distinct by (auto simp: qpIter_def Let_def endsBlank_def split: if_splits)
      next
        case False
        with assms(2) av nocr peek
        have "qpEmit e c rest ((c = TAB \<or> c = SPC) \<and> take 2 rest = [CR, LF]) r out = Next e' av' r' out'
              \<or> qpEmit e c rest ((c = TAB \<or> c = SPC) \<and> take 2 rest = [CR, LF]) r out = Stop e' av' r' out'"
          by (auto simp: qpIter_def Let_def split: if_splits)
        from qpEmit_device [OF this] have "av' = rest \<or> av' = c # rest" .
        with eb av l rest show ?thesis by (auto simp: endsBlank_def)
      qed
    qed
  qed
qed

lemma qpLoop_endsBlank:
  assumes "endsBlank av" and "qpLoop tm e av r out = (e', av', r', out')"
  shows "endsBlank av' \<and> last av' = last av"
  using assms
proof (induction tm e av r out rule: qpLoop.induct)
  case (1 tm e av remaining out)
  show ?case
  proof (cases "av \<noteq> [] \<and> remaining > 0")
    case False
    with "1.prems" show ?thesis by (auto simp: qpLoop.simps [of tm e av remaining out])
  next
    case True
    show ?thesis
    proof (cases "qpIter tm e av remaining out")
      case (Stop e1 av1 r1 out1)
      with True "1.prems"(2) have "av' = av1"
        by (simp add: qpLoop.simps [of tm e av remaining out])
      with qpIter_endsBlank [OF "1.prems"(1), of tm e remaining out e1 av1 r1 out1] Stop
      show ?thesis by simp
    next
      case (Next e1 av1 r1 out1)
      with True "1.prems"(2) have l: "qpLoop tm e1 av1 r1 out1 = (e', av', r', out')"
        by (simp add: qpLoop.simps [of tm e av remaining out])
      from qpIter_endsBlank [OF "1.prems"(1), of tm e remaining out e1 av1 r1 out1] Next
      have b: "endsBlank av1" "last av1 = last av" by simp_all
      from "1.IH" [OF True Next b(1) l] b(2) show ?thesis by simp
    qed
  qed
qed

lemma endsBlank_not_atEnd: "endsBlank (avail d) \<Longrightarrow> \<not> deviceAtEnd e d"
  by (simp add: endsBlank_def deviceAtEnd_def)

lemma qpReadDataImpl_endsBlank:
  assumes "endsBlank (avail d)" and "qpReadDataImpl tm e d m = Inr r"
  shows "endsBlank (avail (source r)) \<and> \<not> finishedEmitted r"
proof -
  obtain e1 av1 r1 out1 where l: "qpLoop tm e (avail d) m [] = (e1, av1, r1, out1)"
    by (cases "qpLoop tm e (avail d) m []") auto
  from qpLoop_endsBlank [OF assms(1) l] have b: "endsBlank av1" by simp
  then have "\<not> deviceAtEnd e1 (d\<lparr>avail := av1\<rparr>)"
    by (simp add: endsBlank_def deviceAtEnd_def)
  with assms l b endsBlank_not_atEnd [OF assms(1), of e] show ?thesis
    by (auto simp: qpReadDataImpl_def split: if_splits)
qed

lemma qpReadAll_endsBlank:
  assumes "endsBlank (avail d)" and "qpReadAll tm e d ms = Inr (out, rets, fin, e', d')"
  shows "endsBlank (avail d') \<and> \<not> fin"
  using assms
proof (induction ms arbitrary: e d out rets fin)
  case Nil
  then show ?case by simp
next
  case (Cons m ms)
  from Cons.prems(2) obtain r out2 rets2 fin2 where
    r: "qpReadDataImpl tm e d m = Inr r" and
    a: "qpReadAll tm (encoder r) (source r) ms = Inr (out2, rets2, fin2, e', d')" and
    f: "fin = (finishedEmitted r \<or> fin2)"
    by (auto split: sum.splits)
  from qpReadDataImpl_endsBlank [OF Cons.prems(1) r]
  have b: "endsBlank (avail (source r))" "\<not> finishedEmitted r" by simp_all
  from Cons.IH [OF b(1) a] b(2) f show ?case by simp
qed

lemma qpEmit_room:
  assumes "6 \<le> r"
  shows "\<exists>e' r' out'. qpEmit e c dv f r out = Next e' dv r' out' \<and> r - 6 \<le> r'"
  using assms by (auto simp: qpEmit_def Let_def)

lemma qpIter_room:
  assumes "endsBlank av" and "\<not> stalled av" and "6 * int (length av) \<le> r"
  shows "\<exists>e' av' r' out'. qpIter tm e av r out = Next e' av' r' out'
           \<and> endsBlank av' \<and> 6 * int (length av') \<le> r'"
proof (cases av)
  case Nil
  with assms(1) show ?thesis by (simp add: endsBlank_def)
next
  case (Cons c rest)
  note av = Cons
  from assms(2) av have peek: "\<not> ((c = TAB \<or> c = SPC) \<and> length (take 2 rest) \<noteq> 2)"
    by (auto simp: stalled_def)
  have rest: "rest \<noteq> []"
  proof
    assume "rest = []"
    with av assms(1) have "c = TAB \<or> c = SPC" by (simp add: endsBlank_def)
    with peek \<open>rest = []\<close> show False by simp
  qed
  with av assms(1) have eb: "endsBlank rest" by (simp add: endsBlank_def)
  from assms(3) av have r6: "6 \<le> r" and rr: "6 * int (length rest) \<le> r - 6" by simp_all
  show ?thesis
  proof (cases "c = CR")
    case cr: True
    from rest obtain c2 rest2 where r2: "rest = c2 # rest2" by (cases rest) auto
    show ?thesis
    proof (cases "c2 = LF")
      case True
      have "rest2 \<noteq> []"
      proof
        assume "rest2 = []"
        with r2 eb True show False using TAB_SPC_distinct by (auto simp: endsBlank_def)
      qed
      with eb r2 have "endsBlank rest2" by (simp add: endsBlank_def)
      moreover from rr r2 have "6 * int (length rest2) \<le> r - 2" by simp
      moreover from av cr r2 True r6
      have "qpIter tm e av r out = Next (e\<lparr>lineChars := 0\<rparr>) rest2 (r - 2) (out @ [CR, LF])"
        using TAB_SPC_distinct by (auto simp: qpIter_def Let_def)
      ultimately show ?thesis by blast
    next
      case False
      from qpEmit_room [OF r6, of e c2 "c2 # rest2" "(c = TAB \<or> c = SPC) \<and> take 2 rest = [CR, LF]" out]
      obtain e' r' out' where
        n: "qpEmit e c2 (c2 # rest2) ((c = TAB \<or> c = SPC) \<and> take 2 rest = [CR, LF]) r out
              = Next e' (c2 # rest2) r' out'" and r': "r - 6 \<le> r'"
        by blast
      from av cr r2 False n have "qpIter tm e av r out = Next e' rest r' out'"
        using TAB_SPC_distinct by (auto simp: qpIter_def Let_def)
      with eb rr r' show ?thesis by auto
    qed
  next
    case nocr: False
    show ?thesis
    proof (cases "tm \<and> c = LF")
      case True
      with av nocr r6 have "qpIter tm e av r out = Next (e\<lparr>lineChars := 0\<rparr>) rest (r - 2) (out @ [CR, LF])"
        using TAB_SPC_distinct by (auto simp: qpIter_def Let_def)
      with eb rr show ?thesis by auto
    next
      case False
      from qpEmit_room [OF r6, of e c rest "(c = TAB \<or> c = SPC) \<and> take 2 rest = [CR, LF]" out]
      obtain e' r' out' where
        n: "qpEmit e c rest ((c = TAB \<or> c = SPC) \<and> take 2 rest = [CR, LF]) r out
              = Next e' rest r' out'" and r': "r - 6 \<le> r'"
        by blast
      from av nocr peek False n have "qpIter tm e av r out = Next e' rest r' out'"
        by (auto simp: qpIter_def Let_def)
      with eb rr r' show ?thesis by auto
    qed
  qed
qed

lemma qpLoop_reaches_stall:
  assumes "endsBlank av" and "6 * int (length av) \<le> r"
  shows "\<exists>e' av' r' out'. qpLoop tm e av r out = (e', av', r', out') \<and> stalled av' \<and> 0 \<le> r'"
  using assms
proof (induction tm e av r out rule: qpLoop.induct)
  case (1 tm e av remaining out)
  from "1.prems"(1) have ne: "av \<noteq> []" by (simp add: endsBlank_def)
  then have "0 < length av" by simp
  with "1.prems"(2) have pos: "0 < remaining" by linarith
  show ?case
  proof (cases "stalled av")
    case True
    with pos show ?thesis by (simp add: qpLoop_stalled)
  next
    case False
    from qpIter_room [OF "1.prems"(1) False "1.prems"(2), of tm e out]
    obtain e1 av1 r1 out1 where
      n: "qpIter tm e av remaining out = Next e1 av1 r1 out1"
      and b: "endsBlank av1" "6 * int (length av1) \<le> r1"
      by blast
    from ne pos have c: "av \<noteq> [] \<and> 0 < remaining" by simp
    from "1.IH" [OF c n b] obtain e' av' r' out' where
      "qpLoop tm e1 av1 r1 out1 = (e', av', r', out')" "stalled av'" "0 \<le> r'"
      by blast
    with c n show ?thesis by (simp add: qpLoop.simps [of tm e av remaining out])
  qed
qed

lemma qpReadDataImpl_reaches_stall:
  assumes "endsBlank (avail d)" and "6 * int (length (avail d)) \<le> m"
  shows "\<exists>r. qpReadDataImpl tm e d m = Inr r \<and> stalled (avail (source r)) \<and> \<not> finishedEmitted r"
proof -
  from qpLoop_reaches_stall [OF assms, of tm e "[]"] obtain e1 av1 r1 out1 where
    l: "qpLoop tm e (avail d) m [] = (e1, av1, r1, out1)" and s: "stalled av1" and r: "0 \<le> r1"
    by blast
  from s have "av1 \<noteq> []" by (rule stalled_not_empty)
  then have "\<not> deviceAtEnd e1 (d\<lparr>avail := av1\<rparr>)" by (simp add: deviceAtEnd_def)
  with l s r endsBlank_not_atEnd [OF assms(1), of e] show ?thesis
    by (simp add: qpReadDataImpl_def)
qed

text \<open>
  C10. When the loop comes to a TAB or SPACE with fewer than two bytes behind it, it
  leaves it on the device and stops, writing nothing more; a call of \<open>readData\<close> that
  starts there returns 0, changes nothing and does not emit \<open>readChannelFinished\<close>, and
  so does every later call. A source whose last byte is a TAB or SPACE is never read to
  its end: after any reads the device still ends with that byte, the encoder has not
  reported the end of the stream, and one read with room for six bytes per input byte
  arrives at the state that no read leaves.
\<close>

theorem qp_trailing_blank_stalls:
  "(stalled av \<longrightarrow> qpLoop tm e av remaining out = (e, av, remaining, out))
   \<and> (stalled (avail d) \<longrightarrow>
        qpReadDataImpl tm e d m
          = Inr \<lparr>written = [], returned = 0, finishedEmitted = False, encoder = e, source = d\<rparr>
        \<and> qpReadAll tm e d ms = Inr ([], replicate (length ms) 0, False, e, d))
   \<and> (endsBlank (avail d) \<and> qpReadAll tm e d ms = Inr (out', rets, fin, e', d')
        \<longrightarrow> endsBlank (avail d') \<and> \<not> fin \<and> \<not> deviceAtEnd e' d')
   \<and> (endsBlank (avail d) \<and> 6 * int (length (avail d)) \<le> m
        \<longrightarrow> (\<exists>r. qpReadDataImpl tm e d m = Inr r \<and> stalled (avail (source r))
                  \<and> \<not> finishedEmitted r))"
  using qpLoop_stalled [of av tm e remaining out]
    qpReadDataImpl_stalled [of d tm e m] qpReadAll_stalled [of d tm e ms]
    qpReadAll_endsBlank [of d tm e ms out' rets fin e' d']
    endsBlank_not_atEnd [of d' e']
    qpReadDataImpl_reaches_stall [of d m tm e]
  by blast

text \<open>
  The theorem on a device that holds a single SPACE, and on the input \<open>end\<close> followed by a
  SPACE, read with buffers of 100 bytes.
\<close>

lemma qp_stalled_blank: "stalled '' ''"
  by code_simp

lemma qp_endsBlank_end: "endsBlank ''end ''"
  by code_simp

lemma qp_run_end_blank:
  "qpReadAll False (openQp 76 False) \<lparr>avail = ''end '', isSequential = False\<rparr> [100, 100]
     = Inr (''end'', [3, 0], False, (openQp 76 False)\<lparr>lineChars := 3\<rparr>,
            \<lparr>avail = '' '', isSequential = False\<rparr>)"
  by code_simp

theorem qp_trailing_blank_stalls_witness:
  "stalled '' ''
   \<and> qpLoop False (openQp 76 False) '' '' 100 [] = (openQp 76 False, '' '', 100, [])
   \<and> qpReadDataImpl False (openQp 76 False) \<lparr>avail = '' '', isSequential = False\<rparr> 100
        = Inr \<lparr>written = [], returned = 0, finishedEmitted = False,
                encoder = openQp 76 False, source = \<lparr>avail = '' '', isSequential = False\<rparr>\<rparr>
   \<and> qpReadAll False (openQp 76 False) \<lparr>avail = '' '', isSequential = False\<rparr> [100, 100]
        = Inr ([], [0, 0], False, openQp 76 False, \<lparr>avail = '' '', isSequential = False\<rparr>)
   \<and> endsBlank ''end ''
   \<and> qpReadAll False (openQp 76 False) \<lparr>avail = ''end '', isSequential = False\<rparr> [100, 100]
        = Inr (''end'', [3, 0], False, (openQp 76 False)\<lparr>lineChars := 3\<rparr>,
               \<lparr>avail = '' '', isSequential = False\<rparr>)
   \<and> endsBlank '' ''
   \<and> \<not> deviceAtEnd ((openQp 76 False)\<lparr>lineChars := 3\<rparr>) \<lparr>avail = '' '', isSequential = False\<rparr>
   \<and> (\<exists>r. qpReadDataImpl False (openQp 76 False) \<lparr>avail = ''end '', isSequential = False\<rparr> 100 = Inr r
          \<and> stalled (avail (source r)) \<and> \<not> finishedEmitted r)"
  using qp_trailing_blank_stalls
          [where av = "'' ''" and tm = False and e = "openQp 76 False" and remaining = 100
             and out = "[]" and d = "\<lparr>avail = '' '', isSequential = False\<rparr>" and m = 100
             and ms = "[100, 100]"]
        qp_trailing_blank_stalls
          [where d = "\<lparr>avail = ''end '', isSequential = False\<rparr>" and tm = False
             and e = "openQp 76 False" and ms = "[100, 100]" and m = 100
             and out' = "''end''" and rets = "[3, 0]" and fin = False
             and e' = "(openQp 76 False)\<lparr>lineChars := 3\<rparr>"
             and d' = "\<lparr>avail = '' '', isSequential = False\<rparr>"]
        qp_stalled_blank qp_endsBlank_end qp_run_end_blank
  by simp

section \<open>Quoted-Printable: TAB, SPACE and dot at the places that matter to SMTP\<close>

lemma qp_run_dot_and_blank:
  "qpReadAll False (openQp 76 False)
       \<lparr>avail = ''.start'' @ [CR, LF] @ ''end '', isSequential = False\<rparr> [100, 100, 100]
     = Inr (''=2Estart'' @ [CR, LF] @ ''end'', [13, 0, 0], False,
            (openQp 76 False)\<lparr>lineChars := 3\<rparr>, \<lparr>avail = '' '', isSequential = False\<rparr>)"
  by code_simp

lemma qp_run_blank_crlf:
  "qpReadAll False (openQp 76 False)
       \<lparr>avail = ''end '' @ [CR, LF], isSequential = False\<rparr> [100, 100]
     = Inr (''end=20'' @ [CR, LF], [8, 0], True,
            (openQp 76 False)\<lparr>lineChars := 0\<rparr>, \<lparr>avail = [], isSequential = False\<rparr>)"
  by code_simp

lemma qp_run_dot_after_soft_break:
  "qpReadAll False (openQp 76 False)
       \<lparr>avail = replicate 74 (CHR ''a'') @ ''.'' @ [CR, LF], isSequential = False\<rparr> [200]
     = Inr (replicate 74 (CHR ''a'') @ ''='' @ [CR, LF] @ ''.'' @ [CR, LF], [80], True,
            (openQp 76 False)\<lparr>lineChars := 0\<rparr>, \<lparr>avail = [], isSequential = False\<rparr>)"
  by code_simp

lemma qpEmit_dot_after_soft_break:
  "qpEmit (e\<lparr>lineWidth := int n + 3, lineChars := int n + 1\<rparr>) (CHR ''.'') dv False (int k + 4) out
     = Next (e\<lparr>lineWidth := int n + 3, lineChars := 1\<rparr>) dv (int k) (out @ [CHR ''='', CR, LF, CHR ''.''])"
  by (simp add: qpEmit_def Let_def printableChar_def)

text \<open>
  C8. The property asks that a TAB or SPACE before a CR LF comes out hex-encoded, that a
  dot at the start of an output line comes out as \<open>=2E\<close>, and that the body \<open>.start\<close> CR LF
  \<open>end\<close> SPACE comes out with \<open>=2E\<close> and \<open>=20\<close>. The encoder does the first (a SPACE before
  CR LF is written \<open>=20\<close>), but on that body it writes \<open>=2Estart\<close> CR LF \<open>end\<close> and no more:
  the SPACE stays on the device, every later read returns 0 and \<open>readChannelFinished\<close> is
  never emitted. The dot rule looks at \<open>lineChars\<close> before the soft line break resets it: a
  dot that no longer fits on the line is written raw as the first character of the next
  line, so 74 letters \<open>a\<close>, a dot and CR LF come out ending in CR LF dot CR LF.
\<close>

theorem qp_mail_safety_runs:
  "qpReadAll False (openQp 76 False)
       \<lparr>avail = ''.start'' @ [CR, LF] @ ''end '', isSequential = False\<rparr> [100, 100, 100]
     = Inr (''=2Estart'' @ [CR, LF] @ ''end'', [13, 0, 0], False,
            (openQp 76 False)\<lparr>lineChars := 3\<rparr>, \<lparr>avail = '' '', isSequential = False\<rparr>)
   \<and> qpReadAll False (openQp 76 False)
       \<lparr>avail = ''end '' @ [CR, LF], isSequential = False\<rparr> [100, 100]
     = Inr (''end=20'' @ [CR, LF], [8, 0], True,
            (openQp 76 False)\<lparr>lineChars := 0\<rparr>, \<lparr>avail = [], isSequential = False\<rparr>)
   \<and> qpReadAll False (openQp 76 False)
       \<lparr>avail = replicate 74 (CHR ''a'') @ ''.'' @ [CR, LF], isSequential = False\<rparr> [200]
     = Inr (replicate 74 (CHR ''a'') @ ''='' @ [CR, LF] @ ''.'' @ [CR, LF], [80], True,
            (openQp 76 False)\<lparr>lineChars := 0\<rparr>, \<lparr>avail = [], isSequential = False\<rparr>)
   \<and> qpEmit (e\<lparr>lineWidth := int n + 3, lineChars := int n + 1\<rparr>) (CHR ''.'') dv False (int k + 4) out
     = Next (e\<lparr>lineWidth := int n + 3, lineChars := 1\<rparr>) dv (int k) (out @ [CHR ''='', CR, LF, CHR ''.''])"
  by (intro conjI qp_run_dot_and_blank qp_run_blank_crlf qp_run_dot_after_soft_break
        qpEmit_dot_after_soft_break)

section \<open>Line width zero\<close>

lemma qpEmit_width_zero:
  "qpEmit (e\<lparr>lineWidth := 0, lineChars := int n\<rparr>) c dv f (int k + 6) out
     = (if \<not> (f \<or> (n = 0 \<and> c = CHR ''.'')) \<and> printableChar c
        then Next (e\<lparr>lineWidth := 0, lineChars := 1\<rparr>) dv (int k + 2) (out @ [CHR ''='', CR, LF, c])
        else Next (e\<lparr>lineWidth := 0, lineChars := 3\<rparr>) dv (int k) (out @ [CHR ''='', CR, LF] @ hexEncoded c))"
  by (simp add: qpEmit_def Let_def)

lemma qp_run_width_zero:
  "qpReadAll False (openQp 0 False) \<lparr>avail = ''abc'', isSequential = False\<rparr> [100, 100]
     = Inr (''='' @ [CR, LF] @ ''a='' @ [CR, LF] @ ''b='' @ [CR, LF] @ ''c'', [12, 0], True,
            (openQp 0 False)\<lparr>lineChars := 1\<rparr>, \<lparr>avail = [], isSequential = False\<rparr>)"
  by code_simp

lemma put_width_zero:
  "put (e\<lparr>lineWidth := 0\<rparr>) c = ([c], e\<lparr>lineWidth := 0\<rparr>)"
  by (simp add: put_def)

text \<open>
  C9. With \<open>lineWidth = 0\<close> the Base64 encoder's \<open>put\<close> writes the character alone and
  keeps its state, so no CR LF is inserted. The Quoted-Printable encoder tests
  \<open>lineChars + (isPrintable ? 2 : 4) >= lineWidth\<close>, which holds for every character when
  \<open>lineWidth\<close> is 0: each character that reaches the test is written after a soft line
  break of its own, and the input \<open>abc\<close> comes out as three soft line breaks with one
  letter each.
\<close>

theorem line_width_zero:
  "put (e\<lparr>lineWidth := 0\<rparr>) c = ([c], e\<lparr>lineWidth := 0\<rparr>)
   \<and> qpEmit (e'\<lparr>lineWidth := 0, lineChars := int n\<rparr>) c dv f (int k + 6) out
     = (if \<not> (f \<or> (n = 0 \<and> c = CHR ''.'')) \<and> printableChar c
        then Next (e'\<lparr>lineWidth := 0, lineChars := 1\<rparr>) dv (int k + 2) (out @ [CHR ''='', CR, LF, c])
        else Next (e'\<lparr>lineWidth := 0, lineChars := 3\<rparr>) dv (int k) (out @ [CHR ''='', CR, LF] @ hexEncoded c))
   \<and> qpReadAll False (openQp 0 False) \<lparr>avail = ''abc'', isSequential = False\<rparr> [100, 100]
     = Inr (''='' @ [CR, LF] @ ''a='' @ [CR, LF] @ ''b='' @ [CR, LF] @ ''c'', [12, 0], True,
            (openQp 0 False)\<lparr>lineChars := 1\<rparr>, \<lparr>avail = [], isSequential = False\<rparr>)"
  by (intro conjI put_width_zero qpEmit_width_zero qp_run_width_zero)

section \<open>CRAM-MD5: the response is the keyed MD5 of the challenge\<close>

lemma md5_length: "length (md5 msg) = 16"
  by (simp add: md5_def bytesLE_def Let_def split: prod.splits)

lemma xorBytes_replicate:
  "length xs = n \<Longrightarrow> k < 256 \<Longrightarrow> xorBytes xs (replicate n (char_of (k::nat))) = map (xorByte k) xs"
  by (induction xs arbitrary: n) (auto simp: xorBytes_def xorByte_def)

lemma hexdigits_lower: "\<forall>c \<in> set hexdigits. \<not> (65 \<le> (of_char c :: nat) \<and> (of_char c :: nat) \<le> 90)"
  by (simp add: hexdigits_def)

lemma toHex_set: "set (toHex bs) \<subseteq> set hexdigits"
proof -
  have l: "length hexdigits = 16" by (simp add: hexdigits_def)
  have "n < 256 \<Longrightarrow> n div 16 < (16::nat)" for n
    by simp
  then have "(of_char c :: nat) div 16 < 16" for c
    using of_char_less [of c] by blast
  then show ?thesis
    by (auto simp: toHex_def l)
qed

lemma toLower_toHex: "toLower (toHex bs) = toHex bs"
proof -
  have "\<forall>c \<in> set (toHex bs). \<not> (65 \<le> (of_char c :: nat) \<and> (of_char c :: nat) \<le> 90)"
    using toHex_set [of bs] hexdigits_lower by blast
  then show ?thesis
    by (auto simp: toLower_def intro!: map_idI)
qed

lemma padded_key:
  "length secret \<le> 64 \<Longrightarrow>
   take 64 (secret @ replicate 64 z) = secret @ replicate (64 - length secret) z"
  by simp

text \<open>The example of RFC 2195.\<close>

lemma cram_challenge:
  "toBase64 ''<1896.697170952@postoffice.reston.mci.net>''
     = ''PDE4OTYuNjk3MTcwOTUyQHBvc3RvZmZpY2UucmVzdG9uLm1jaS5uZXQ+''"
  by (simp add: toBase64_def quantumChars_def base64dict_def)

lemma cram_response:
  "toBase64 ''tim b913a602c7eda7a495b4e6e7334d3890''
     = ''dGltIGI5MTNhNjAyYzdlZGE3YTQ5NWI0ZTZlNzMzNGQzODkw''"
  by (simp add: toBase64_def quantumChars_def base64dict_def)

lemma cram_digest:
  "toLower (toHex (md5
     (map (xorByte 0x5c)
        (take 64 ((if length ''tanstaaftanstaaf'' > 64 then md5 ''tanstaaftanstaaf'' else ''tanstaaftanstaaf'')
                  @ replicate 64 (char_of (0::nat))))
      @ md5 (map (xorByte 0x36)
               (take 64 ((if length ''tanstaaftanstaaf'' > 64 then md5 ''tanstaaftanstaaf'' else ''tanstaaftanstaaf'')
                         @ replicate 64 (char_of (0::nat))))
             @ fromBase64 ''PDE4OTYuNjk3MTcwOTUyQHBvc3RvZmZpY2UucmVzdG9uLm1jaS5uZXQ+''))))
   = ''b913a602c7eda7a495b4e6e7334d3890''"
  by code_simp

lemma cram_vector:
  "cramMd5Mech (toBase64 ''<1896.697170952@postoffice.reston.mci.net>'') ''tim'' ''tanstaaftanstaaf''
     = toBase64 ''tim b913a602c7eda7a495b4e6e7334d3890''"
  unfolding cram_challenge cramMd5Mech_def Let_def cram_digest by simp

text \<open>
  C2. For every challenge, user name and password, \<open>cramMd5Mech\<close> returns
  \<open>base64(user || " " || lower_hex(MD5(outer || MD5(inner || text))))\<close>, where \<open>text\<close> is
  the Base64-decoded challenge, the key is the password (its MD5 when longer than 64
  bytes) right-padded with zero bytes to 64 bytes, \<open>inner\<close> is the key XOR 64 bytes 0x36
  and \<open>outer\<close> the key XOR 64 bytes 0x5c. For the user \<open>tim\<close>, the password
  \<open>tanstaaftanstaaf\<close> and the Base64 of \<open><1896.697170952@postoffice.reston.mci.net>\<close> as
  challenge, the response is the Base64 of \<open>tim b913a602c7eda7a495b4e6e7334d3890\<close>.
\<close>

theorem cramMd5Mech_is_hmac_md5:
  "cramMd5Mech challenge user pass = cramMd5Spec challenge user pass
   \<and> cramMd5Mech (toBase64 ''<1896.697170952@postoffice.reston.mci.net>'') ''tim'' ''tanstaaftanstaaf''
       = toBase64 ''tim b913a602c7eda7a495b4e6e7334d3890''
   \<and> toBase64 ''tim b913a602c7eda7a495b4e6e7334d3890''
       = ''dGltIGI5MTNhNjAyYzdlZGE3YTQ5NWI0ZTZlNzMzNGQzODkw''"
proof (intro conjI)
  let ?secret = "if length pass > 64 then md5 pass else pass"
  let ?key = "?secret @ replicate (64 - length ?secret) (char_of (0::nat))"
  have l: "length ?secret \<le> 64" by (simp add: md5_length)
  have p: "take 64 (?secret @ replicate 64 (char_of (0::nat))) = ?key"
    by (rule padded_key [OF l])
  have k: "length ?key = 64" using l by simp
  have i: "xorBytes ?key (replicate 64 (char_of (0x36::nat))) = map (xorByte 0x36) ?key"
    by (rule xorBytes_replicate [OF k]) simp
  have j: "xorBytes ?key (replicate 64 (char_of (0x5c::nat))) = map (xorByte 0x5c) ?key"
    by (rule xorBytes_replicate [OF k]) simp
  show "cramMd5Mech challenge user pass = cramMd5Spec challenge user pass"
    unfolding cramMd5Mech_def cramMd5Spec_def Let_def p i j toLower_toHex ..
next
  show "cramMd5Mech (toBase64 ''<1896.697170952@postoffice.reston.mci.net>'') ''tim'' ''tanstaaftanstaaf''
       = toBase64 ''tim b913a602c7eda7a495b4e6e7334d3890''"
    by (rule cram_vector)
next
  show "toBase64 ''tim b913a602c7eda7a495b4e6e7334d3890''
       = ''dGltIGI5MTNhNjAyYzdlZGE3YTQ5NWI0ZTZlNzMzNGQzODkw''"
    by (rule cram_response)
qed

end
